theory Spec2Isabelle
  imports Main "HOL-Library.Word" "HOL-Library.Finite_Map"
begin

section \<open>Data model of the message-processing core (messages.cpp)\<close>

text \<open>
  The embedding follows \<^verbatim>\<open>src/services/chain/messages.cpp\<close>. The globals of that file
  (\<^verbatim>\<open>mapNodeState\<close>, \<^verbatim>\<open>mapBlocksInFlight\<close>, the orphan maps, the counters, ...) are the
  fields of one record that every function takes and returns. A \<^verbatim>\<open>std::map\<close> is a finite
  map, a \<^verbatim>\<open>std::list\<close> is a list of nodes, each with the address that its iterators hold.

  \<^verbatim>\<open>uint256\<close> (uint256.h) is an opaque blob of 32 bytes whose comparison operators are
  \<^verbatim>\<open>memcmp\<close> over the bytes. The blob is read here as the 256-bit number whose most
  significant byte is \<^verbatim>\<open>data[0]\<close>: under that reading \<^verbatim>\<open>memcmp\<close> order is the order of
  the numbers, and \<^verbatim>\<open>IsNull\<close> is equality with zero.

  The signed counters of the source (\<^verbatim>\<open>int\<close>, \<^verbatim>\<open>int64_t\<close>) are integers: signed overflow
  is undefined in C++, so the model describes the executions in which it does not occur.
  Unsigned values that the source lets wrap (\<^verbatim>\<open>unsigned int\<close>, \<^verbatim>\<open>uint64_t\<close>) are words.
  Logging is not modelled.
\<close>

type_synonym NodeId = int
type_synonym uint256 = "256 word"

text \<open>A \<^verbatim>\<open>const CBlockIndex *\<close>: \<open>None\<close> is the null pointer, \<open>Some a\<close> the index at address \<open>a\<close>.\<close>
type_synonym CBlockIndex_ptr = "nat option"

text \<open>A \<^verbatim>\<open>std::list<QueuedBlock>::iterator\<close>: the address of a list node.\<close>
type_synonym list_iterator = nat

record QueuedBlock =
  qb_hash :: uint256
  qb_pindex :: CBlockIndex_ptr
  qb_fValidatedHeaders :: bool

text \<open>
  The fields of \<^verbatim>\<open>CNodeState\<close> that the functions below read or write (the struct is declared
  in messages.h; its name and address fields are used for logging only).
\<close>
record CNodeState =
  fCurrentlyConnected :: bool
  nMisbehavior :: int
  fShouldBan :: bool
  fSyncStarted :: bool
  nStallingSince :: int
  vBlocksInFlight :: "(list_iterator \<times> QueuedBlock) list"
  nDownloadingSince :: int
  nBlocksInFlight :: int
  nBlocksInFlightValidHeaders :: int
  fPreferredDownload :: bool

record COutPoint =
  op_hash :: uint256
  op_n :: "32 word"

record CTxIn =
  prevout :: COutPoint

text \<open>
  A transaction, with the two values that code outside this file computes from it:
  \<^verbatim>\<open>tx.GetHash()\<close> and \<^verbatim>\<open>GetSerializeSize(tx, SER_NETWORK, CURRENT_VERSION)\<close>
  (an \<^verbatim>\<open>unsigned int\<close>).
\<close>
record CTransaction =
  GetHash :: uint256
  vin :: "CTxIn list"
  GetSerializeSize :: "32 word"

record COrphanTx =
  otx_tx :: CTransaction
  otx_fromPeer :: NodeId

text \<open>
  Modelled from the spec: \<^verbatim>\<open>CRollingBloomFilter\<close> is declared outside the sources at hand.
  The specification describes it as an approximate set of transaction hashes that is emptied
  by a reset. The filter is the set of the hashes that its \<^verbatim>\<open>contains\<close> accepts, and
  \<^verbatim>\<open>reset\<close> leaves the empty set. The global is a \<^verbatim>\<open>unique_ptr\<close>: \<open>None\<close> is the null
  pointer.
\<close>
type_synonym CRollingBloomFilter = "uint256 set"

record net_state =
  mapNodeState :: "(NodeId, CNodeState) fmap"
  mapBlocksInFlight :: "(uint256, NodeId \<times> list_iterator) fmap"
  mapBlockSource :: "(uint256, NodeId \<times> bool) fmap"
  nSyncStarted :: int
  nPreferredDownload :: int
  nPeersWithValidatedDownloads :: int
  mapOrphanTransactions :: "(uint256, COrphanTx) fmap"
  mapOrphanTransactionsByPrev :: "(uint256, uint256 set) fmap"
  recentRejects :: "CRollingBloomFilter option"
  hashRecentRejectsChainTip :: uint256

text \<open>
  What stops a call: a failed \<^verbatim>\<open>assert\<close>, or behaviour that C++ leaves undefined (a null
  pointer or an iterator that points at no element is dereferenced).
\<close>
datatype failure = AssertionFailed | NullDereference | InvalidIterator

text \<open>
  The command-line arguments that the functions below read through \<^verbatim>\<open>gArgs\<close>; \<open>None\<close> is
  an argument that is not set. \<^verbatim>\<open>-banscore\<close> is read with the integer overload of
  \<^verbatim>\<open>GetArg\<close>, whose result is an \<^verbatim>\<open>int64_t\<close>.
\<close>
record ArgsManager =
  arg_banscore :: "64 word option"
  arg_dropmessagestest :: "int option"
  arg_enforcenodebloom :: "bool option"

text \<open>
  Modelled from the spec: \<^verbatim>\<open>DEFAULT_BANSCORE_THRESHOLD\<close> is declared outside the sources at
  hand; the specification gives the default of \<^verbatim>\<open>banscore\<close> as 100. It is passed to
  \<^verbatim>\<open>GetArg\<close> as the \<^verbatim>\<open>int64_t\<close> default.
\<close>
definition DEFAULT_BANSCORE_THRESHOLD :: "64 word" where
  "DEFAULT_BANSCORE_THRESHOLD = 100"

definition GetArg :: "'a option \<Rightarrow> 'a \<Rightarrow> 'a" where
  "GetArg arg dflt = (case arg of None \<Rightarrow> dflt | Some v \<Rightarrow> v)"

section \<open>Peer state registry\<close>

definition State :: "net_state \<Rightarrow> NodeId \<Rightarrow> CNodeState option" where
  "State s pnode = fmlookup (mapNodeState s) pnode"

text \<open>
  \<^verbatim>\<open>Misbehaving(pnode, howmuch, reason)\<close>: a zero score and an unknown peer leave the state
  as it is; otherwise the score is added and the ban flag is set when this call takes the
  total from below the threshold to at least the threshold. The threshold is the local
  \<^verbatim>\<open>int banscore\<close>: the \<^verbatim>\<open>int64_t\<close> that \<^verbatim>\<open>GetArg\<close> returns is narrowed to \<^verbatim>\<open>int\<close>, which keeps
  its low 32 bits and reads them as a signed number.
\<close>
definition Misbehaving :: "ArgsManager \<Rightarrow> NodeId \<Rightarrow> int \<Rightarrow> string \<Rightarrow> net_state \<Rightarrow> net_state" where
  "Misbehaving gArgs pnode howmuch reason s =
     (if howmuch = 0 then s
      else case State s pnode of
        None \<Rightarrow> s
      | Some state \<Rightarrow>
          let state1 = state\<lparr>nMisbehavior := nMisbehavior state + howmuch\<rparr>;
              banscore = sint (ucast (GetArg (arg_banscore gArgs) DEFAULT_BANSCORE_THRESHOLD) :: 32 word);
              state2 = (if nMisbehavior state1 \<ge> banscore \<and> nMisbehavior state1 - howmuch < banscore
                        then state1\<lparr>fShouldBan := True\<rparr>
                        else state1)
          in s\<lparr>mapNodeState := fmupd pnode state2 (mapNodeState s)\<rparr>)"

section \<open>Orphan pool\<close>

text \<open>
  \<^verbatim>\<open>AddOrphanTx\<close>. \<^verbatim>\<open>mapOrphanTransactionsByPrev[h]\<close> creates an empty set for a key that is
  not there yet.
\<close>
definition AddOrphanTx :: "CTransaction \<Rightarrow> NodeId \<Rightarrow> net_state \<Rightarrow> bool \<times> net_state" where
  "AddOrphanTx txn peer s =
     (let h = GetHash txn in
      if h |\<in>| fmdom (mapOrphanTransactions s) then (False, s)
      else let sz = GetSerializeSize txn in
        if sz > 5000 then (False, s)
        else (True,
          s\<lparr>mapOrphanTransactions :=
               fmupd h \<lparr>otx_tx = txn, otx_fromPeer = peer\<rparr> (mapOrphanTransactions s),
            mapOrphanTransactionsByPrev :=
               fold (\<lambda>txin m.
                      let p = op_hash (prevout txin)
                      in fmupd p (insert h (case fmlookup m p of None \<Rightarrow> {} | Some S \<Rightarrow> S)) m)
                    (vin txn) (mapOrphanTransactionsByPrev s)\<rparr>))"

text \<open>The loop of \<^verbatim>\<open>EraseOrphanTx\<close> over the inputs of the orphan.\<close>
fun EraseOrphanTx_vin ::
  "uint256 \<Rightarrow> CTxIn list \<Rightarrow> (uint256, uint256 set) fmap \<Rightarrow> (uint256, uint256 set) fmap" where
  "EraseOrphanTx_vin h [] byPrev = byPrev"
| "EraseOrphanTx_vin h (txin # rest) byPrev =
     (let p = op_hash (prevout txin) in
      case fmlookup byPrev p of
        None \<Rightarrow> EraseOrphanTx_vin h rest byPrev
      | Some S \<Rightarrow>
          let S' = S - {h}
          in EraseOrphanTx_vin h rest (if S' = {} then fmdrop p byPrev else fmupd p S' byPrev))"

definition EraseOrphanTx :: "uint256 \<Rightarrow> net_state \<Rightarrow> net_state" where
  "EraseOrphanTx h s =
     (case fmlookup (mapOrphanTransactions s) h of
        None \<Rightarrow> s
      | Some orphan \<Rightarrow>
          s\<lparr>mapOrphanTransactionsByPrev :=
               EraseOrphanTx_vin h (vin (otx_tx orphan)) (mapOrphanTransactionsByPrev s),
            mapOrphanTransactions := fmdrop h (mapOrphanTransactions s)\<rparr>)"

text \<open>The keys of a \<^verbatim>\<open>std::map\<close> in iteration order.\<close>
definition map_keys :: "('k::linorder, 'v) fmap \<Rightarrow> 'k list" where
  "map_keys m = sorted_list_of_fset (fmdom m)"

text \<open>
  \<^verbatim>\<open>EraseOrphansFor\<close> walks the map with an iterator that is advanced before the current
  element is looked at. \<open>ks\<close> are the keys that were after the iterator when the walk
  started; a key among them that has been erased in the meantime is not visited. Erasing the
  element that the advanced iterator points at invalidates that iterator.
\<close>
fun EraseOrphansFor_loop :: "NodeId \<Rightarrow> uint256 list \<Rightarrow> net_state \<Rightarrow> failure + net_state" where
  "EraseOrphansFor_loop peer [] s = Inr s"
| "EraseOrphansFor_loop peer (k # ks) s =
     (case fmlookup (mapOrphanTransactions s) k of
        None \<Rightarrow> EraseOrphansFor_loop peer ks s
      | Some maybeErase \<Rightarrow>
          if otx_fromPeer maybeErase = peer then
            let h = GetHash (otx_tx maybeErase);
                iter = List.find (\<lambda>k'. k' |\<in>| fmdom (mapOrphanTransactions s)) ks
            in if iter = Some h then Inl InvalidIterator
               else EraseOrphansFor_loop peer ks (EraseOrphanTx h s)
          else EraseOrphansFor_loop peer ks s)"

definition EraseOrphansFor :: "NodeId \<Rightarrow> net_state \<Rightarrow> failure + net_state" where
  "EraseOrphansFor peer s = EraseOrphansFor_loop peer (map_keys (mapOrphanTransactions s)) s"

text \<open>\<^verbatim>\<open>lower_bound\<close> and \<^verbatim>\<open>begin\<close> of a \<^verbatim>\<open>std::map\<close>; \<open>None\<close> is \<^verbatim>\<open>end()\<close>.\<close>
definition lower_bound :: "('k::linorder, 'v) fmap \<Rightarrow> 'k \<Rightarrow> 'k option" where
  "lower_bound m k = List.find (\<lambda>k'. k \<le> k') (map_keys m)"

definition map_begin :: "('k::linorder, 'v) fmap \<Rightarrow> 'k option" where
  "map_begin m = (case map_keys m of [] \<Rightarrow> None | k # _ \<Rightarrow> Some k)"

lemma map_keys_set: "set (map_keys m) = fset (fmdom m)"
  by (simp add: map_keys_def)

lemma lower_bound_dom: "lower_bound m k = Some k' \<Longrightarrow> k' |\<in>| fmdom m"
  unfolding lower_bound_def using map_keys_set[of m]
  by (metis find_Some_iff nth_mem)

lemma map_begin_dom: "map_begin m = Some k' \<Longrightarrow> k' |\<in>| fmdom m"
  unfolding map_begin_def using map_keys_set[of m]
  by (auto split: list.splits)

lemma EraseOrphanTx_fcard:
  assumes "k |\<in>| fmdom (mapOrphanTransactions s)"
  shows "Suc (fcard (fmdom (mapOrphanTransactions (EraseOrphanTx k s))))
           = fcard (fmdom (mapOrphanTransactions s))"
proof -
  from assms obtain orphan where "fmlookup (mapOrphanTransactions s) k = Some orphan"
    by (auto simp: fmlookup_dom_iff)
  then have "mapOrphanTransactions (EraseOrphanTx k s) = fmdrop k (mapOrphanTransactions s)"
    by (simp add: EraseOrphanTx_def)
  with assms show ?thesis
    using fcard_Suc_fminus1[of k "fmdom (mapOrphanTransactions s)"] by simp
qed

text \<open>
  \<^verbatim>\<open>LimitOrphanTxSize\<close>. \<open>GetRandHash\<close> stands for the random source: its \<open>i\<close>-th draw is
  \<open>GetRandHash i\<close>, and \<open>i\<close> counts the draws made so far. \<^verbatim>\<open>nEvicted\<close> is an
  \<^verbatim>\<open>unsigned int\<close>, the size of the map a \<^verbatim>\<open>size_t\<close> that is compared with the cap after the
  cap has been converted to \<^verbatim>\<open>size_t\<close>.
\<close>
function LimitOrphanTxSize_loop ::
  "(nat \<Rightarrow> uint256) \<Rightarrow> nat \<Rightarrow> 32 word \<Rightarrow> 32 word \<Rightarrow> net_state \<Rightarrow> failure + (32 word \<times> net_state)" where
  "LimitOrphanTxSize_loop GetRandHash i nMaxOrphans nEvicted s =
     (if fcard (fmdom (mapOrphanTransactions s)) > unat nMaxOrphans then
        let randomhash = GetRandHash i;
            it = lower_bound (mapOrphanTransactions s) randomhash;
            it = (if it = None then map_begin (mapOrphanTransactions s) else it)
        in case it of
             None \<Rightarrow> Inl InvalidIterator
           | Some k \<Rightarrow>
               LimitOrphanTxSize_loop GetRandHash (Suc i) nMaxOrphans (nEvicted + 1) (EraseOrphanTx k s)
      else Inr (nEvicted, s))"
  by pat_completeness auto

termination
proof (relation "measure (\<lambda>(r, i, cap, ev, s). fcard (fmdom (mapOrphanTransactions s)))")
  show "wf (measure (\<lambda>(r, i, cap, ev, s). fcard (fmdom (mapOrphanTransactions s))))"
    by simp
next
  fix GetRandHash :: "nat \<Rightarrow> uint256" and i :: nat and nMaxOrphans nEvicted :: "32 word"
    and s :: net_state and randomhash it ita k
  assume it: "it = lower_bound (mapOrphanTransactions s) randomhash"
    and ita: "ita = (if it = None then map_begin (mapOrphanTransactions s) else it)"
    and k: "ita = Some k"
  have "k |\<in>| fmdom (mapOrphanTransactions s)"
    using it ita k lower_bound_dom map_begin_dom by metis
  then show "((GetRandHash, Suc i, nMaxOrphans, nEvicted + 1, EraseOrphanTx k s),
              (GetRandHash, i, nMaxOrphans, nEvicted, s))
             \<in> measure (\<lambda>(r, i, cap, ev, s). fcard (fmdom (mapOrphanTransactions s)))"
    using EraseOrphanTx_fcard[of k s] by simp
qed

declare LimitOrphanTxSize_loop.simps [simp del]

definition LimitOrphanTxSize ::
  "(nat \<Rightarrow> uint256) \<Rightarrow> 32 word \<Rightarrow> net_state \<Rightarrow> failure + (32 word \<times> net_state)" where
  "LimitOrphanTxSize GetRandHash nMaxOrphans s =
     LimitOrphanTxSize_loop GetRandHash 0 nMaxOrphans 0 s"

section \<open>Blocks in flight\<close>

text \<open>
  Operations of \<^verbatim>\<open>std::list\<close> on a list of nodes. Dereferencing an iterator finds the node
  with that address (\<open>map_of\<close>); \<^verbatim>\<open>erase\<close> unlinks it; \<^verbatim>\<open>insert\<close> at the end links a
  newly allocated node, whose address differs from the addresses of the nodes of the list.
\<close>
fun list_erase :: "list_iterator \<Rightarrow> (list_iterator \<times> 'a) list \<Rightarrow> (list_iterator \<times> 'a) list" where
  "list_erase it [] = []"
| "list_erase it (x # xs) = (if fst x = it then xs else x # list_erase it xs)"

definition list_begin_is :: "(list_iterator \<times> 'a) list \<Rightarrow> list_iterator \<Rightarrow> bool" where
  "list_begin_is xs it = (case xs of [] \<Rightarrow> False | x # _ \<Rightarrow> fst x = it)"

definition new_node :: "(list_iterator \<times> 'a) list \<Rightarrow> list_iterator" where
  "new_node xs = fold (\<lambda>x a. max (Suc (fst x)) a) xs 0"

text \<open>
  \<^verbatim>\<open>MarkBlockAsReceived(hash)\<close>; \<open>now\<close> is what \<^verbatim>\<open>GetTimeMicros()\<close> returns. The result is
  the returned flag and the new state.
\<close>
definition MarkBlockAsReceived :: "int \<Rightarrow> uint256 \<Rightarrow> net_state \<Rightarrow> failure + (bool \<times> net_state)" where
  "MarkBlockAsReceived now h s =
     (case fmlookup (mapBlocksInFlight s) h of
        None \<Rightarrow> Inr (False, s)
      | Some (nodeid, it) \<Rightarrow>
         (case State s nodeid of
            None \<Rightarrow> Inl NullDereference
          | Some state \<Rightarrow>
             (case map_of (vBlocksInFlight state) it of
                None \<Rightarrow> Inl InvalidIterator
              | Some entry \<Rightarrow>
                 let state1 = state\<lparr>nBlocksInFlightValidHeaders :=
                        nBlocksInFlightValidHeaders state - of_bool (qb_fValidatedHeaders entry)\<rparr>;
                     peers = (if nBlocksInFlightValidHeaders state1 = 0 \<and> qb_fValidatedHeaders entry
                              then nPeersWithValidatedDownloads s - 1
                              else nPeersWithValidatedDownloads s);
                     state2 = (if list_begin_is (vBlocksInFlight state1) it
                               then state1\<lparr>nDownloadingSince := max (nDownloadingSince state1) now\<rparr>
                               else state1);
                     state3 = state2\<lparr>vBlocksInFlight := list_erase it (vBlocksInFlight state2),
                                     nBlocksInFlight := nBlocksInFlight state2 - 1,
                                     nStallingSince := 0\<rparr>
                 in Inr (True,
                      s\<lparr>mapNodeState := fmupd nodeid state3 (mapNodeState s),
                        nPeersWithValidatedDownloads := peers,
                        mapBlocksInFlight := fmdrop h (mapBlocksInFlight s)\<rparr>))))"

text \<open>
  \<^verbatim>\<open>MarkBlockAsInFlight(nodeid, hash, consensusParams, pindex)\<close>; \<open>now1\<close> and \<open>now2\<close> are
  what the two readings of the clock return (the first one inside \<^verbatim>\<open>MarkBlockAsReceived\<close>).
  The pointer \<^verbatim>\<open>state\<close> is taken before the call of \<^verbatim>\<open>MarkBlockAsReceived\<close> and read after
  it, so that the model looks the peer up again in the state that the call leaves.
\<close>
definition MarkBlockAsInFlight ::
  "int \<Rightarrow> int \<Rightarrow> NodeId \<Rightarrow> uint256 \<Rightarrow> CBlockIndex_ptr \<Rightarrow> net_state \<Rightarrow> failure + net_state" where
  "MarkBlockAsInFlight now1 now2 nodeid h pindex s =
     (case State s nodeid of
        None \<Rightarrow> Inl AssertionFailed
      | Some _ \<Rightarrow>
         (case MarkBlockAsReceived now1 h s of
            Inl e \<Rightarrow> Inl e
          | Inr (_, s1) \<Rightarrow>
             (case State s1 nodeid of
                None \<Rightarrow> Inl NullDereference
              | Some state \<Rightarrow>
                 let newentry = \<lparr>qb_hash = h, qb_pindex = pindex, qb_fValidatedHeaders = (pindex \<noteq> None)\<rparr>;
                     it = new_node (vBlocksInFlight state);
                     state1 = state\<lparr>vBlocksInFlight := vBlocksInFlight state @ [(it, newentry)],
                                    nBlocksInFlight := nBlocksInFlight state + 1,
                                    nBlocksInFlightValidHeaders :=
                                      nBlocksInFlightValidHeaders state + of_bool (qb_fValidatedHeaders newentry)\<rparr>;
                     state2 = (if nBlocksInFlight state1 = 1
                               then state1\<lparr>nDownloadingSince := now2\<rparr>
                               else state1);
                     peers = (if nBlocksInFlightValidHeaders state2 = 1 \<and> pindex \<noteq> None
                              then nPeersWithValidatedDownloads s1 + 1
                              else nPeersWithValidatedDownloads s1)
                 in Inr (s1\<lparr>mapNodeState := fmupd nodeid state2 (mapNodeState s1),
                            nPeersWithValidatedDownloads := peers,
                            mapBlocksInFlight := fmupd h (nodeid, it) (mapBlocksInFlight s1)\<rparr>))))"

text \<open>
  The connection object \<^verbatim>\<open>CNode\<close> (declared in net.h), with the fields that the functions
  below read or write. \<^verbatim>\<open>vSendMsg\<close> collects what \<^verbatim>\<open>connman.PushMessage\<close> is called with for
  this connection, oldest first: the command and the values that \<^verbatim>\<open>Make\<close> serialises.
\<close>
datatype msg_field = Str string | Byte "8 word" | UInt64 "64 word"

record CSerializedNetMsg =
  command :: string
  data :: "msg_field list"

record CNode =
  GetId :: NodeId
  nVersion :: int
  GetLocalServices :: "64 word"
  fInbound :: bool
  fWhitelisted :: bool
  fOneShot :: bool
  fClient :: bool
  fSuccessfullyConnected :: bool
  fDisconnect :: bool
  fPingQueued :: bool
  nPingNonceSent :: "64 word"
  nPingUsecStart :: int
  nPingUsecTime :: int
  nMinPingUsecTime :: int
  vSendMsg :: "CSerializedNetMsg list"

definition PushMessage :: "CNode \<Rightarrow> CSerializedNetMsg \<Rightarrow> CNode" where
  "PushMessage pnode msg = pnode\<lparr>vSendMsg := vSendMsg pnode @ [msg]\<rparr>"

definition Make :: "string \<Rightarrow> msg_field list \<Rightarrow> CSerializedNetMsg" where
  "Make cmd args = \<lparr>command = cmd, data = args\<rparr>"

text \<open>
  \<^verbatim>\<open>UpdatePreferredDownload(node, state)\<close>, called with \<^verbatim>\<open>State(node->GetId())\<close>; the
  pointer is dereferenced without a check. A \<^verbatim>\<open>bool\<close> that is added to an \<^verbatim>\<open>int\<close> counts
  as 0 or 1.
\<close>
definition UpdatePreferredDownload :: "CNode \<Rightarrow> net_state \<Rightarrow> failure + net_state" where
  "UpdatePreferredDownload node s =
     (case State s (GetId node) of
        None \<Rightarrow> Inl NullDereference
      | Some state \<Rightarrow>
          let n1 = nPreferredDownload s - of_bool (fPreferredDownload state);
              state1 = state\<lparr>fPreferredDownload :=
                         ((\<not> fInbound node \<or> fWhitelisted node) \<and> \<not> fOneShot node \<and> \<not> fClient node)\<rparr>;
              n2 = n1 + of_bool (fPreferredDownload state1)
          in Inr (s\<lparr>mapNodeState := fmupd (GetId node) state1 (mapNodeState s),
                    nPreferredDownload := n2\<rparr>))"

text \<open>
  Modelled from the spec: the constructor of \<^verbatim>\<open>CNodeState\<close> is in messages.h, which is not
  among the sources at hand. By the specification a peer that has just been registered has
  nothing in flight, no misbehaviour and no flag set.
\<close>
definition CNodeState_new :: CNodeState where
  "CNodeState_new =
     \<lparr>fCurrentlyConnected = False, nMisbehavior = 0, fShouldBan = False, fSyncStarted = False,
      nStallingSince = 0, vBlocksInFlight = [], nDownloadingSince = 0, nBlocksInFlight = 0,
      nBlocksInFlightValidHeaders = 0, fPreferredDownload = False\<rparr>"

text \<open>
  \<^verbatim>\<open>InitializeNode\<close>, as far as the globals go: \<^verbatim>\<open>emplace_hint\<close> leaves an entry that is
  already there. (The version message that it pushes for an outbound peer goes to the
  connection only.)
\<close>
definition InitializeNode :: "NodeId \<Rightarrow> net_state \<Rightarrow> net_state" where
  "InitializeNode nodeid s =
     (if nodeid |\<in>| fmdom (mapNodeState s) then s
      else s\<lparr>mapNodeState := fmupd nodeid CNodeState_new (mapNodeState s)\<rparr>)"

text \<open>
  \<^verbatim>\<open>FinalizeNode(nodeid, fUpdateConnectionTime)\<close>; the result is the value left in
  \<^verbatim>\<open>fUpdateConnectionTime\<close> and the new state.
\<close>
definition FinalizeNode :: "NodeId \<Rightarrow> net_state \<Rightarrow> failure + (bool \<times> net_state)" where
  "FinalizeNode nodeid s =
     (case State s nodeid of
        None \<Rightarrow> Inl NullDereference
      | Some state \<Rightarrow>
          let s1 = (if fSyncStarted state then s\<lparr>nSyncStarted := nSyncStarted s - 1\<rparr> else s);
              fUpdateConnectionTime = (nMisbehavior state = 0 \<and> fCurrentlyConnected state);
              s2 = s1\<lparr>mapBlocksInFlight :=
                        fold (\<lambda>entry m. fmdrop (qb_hash (snd entry)) m)
                             (vBlocksInFlight state) (mapBlocksInFlight s1)\<rparr>;
              s3 = s2\<lparr>mapBlockSource :=
                        fmfilter (\<lambda>k. case fmlookup (mapBlockSource s2) k of
                                         None \<Rightarrow> False
                                       | Some src \<Rightarrow> fst src \<noteq> nodeid)
                                 (mapBlockSource s2)\<rparr>
          in case EraseOrphansFor nodeid s3 of
               Inl e \<Rightarrow> Inl e
             | Inr s4 \<Rightarrow>
                 let s5 = s4\<lparr>nPreferredDownload :=
                               nPreferredDownload s4 - of_bool (fPreferredDownload state),
                             nPeersWithValidatedDownloads :=
                               nPeersWithValidatedDownloads s4
                                 - of_bool (nBlocksInFlightValidHeaders state \<noteq> 0)\<rparr>
                 in if \<not> nPeersWithValidatedDownloads s5 \<ge> 0 then Inl AssertionFailed
                    else
                      let s6 = s5\<lparr>mapNodeState := fmdrop nodeid (mapNodeState s5)\<rparr>
                      in if mapNodeState s6 = fmempty
                         then if \<not> mapBlocksInFlight s6 = fmempty then Inl AssertionFailed
                              else if \<not> nPreferredDownload s6 = 0 then Inl AssertionFailed
                              else if \<not> nPeersWithValidatedDownloads s6 = 0 then Inl AssertionFailed
                              else Inr (fUpdateConnectionTime, s6)
                         else Inr (fUpdateConnectionTime, s6))"

section \<open>Inventory: what we already have\<close>

text \<open>
  The inventory kinds that \<^verbatim>\<open>AlreadyHave\<close> switches on; \<open>MSG_OTHER\<close> is any other value
  of \<^verbatim>\<open>inv.type\<close>.
\<close>
datatype GetDataMsg = MSG_TX | MSG_BLOCK | MSG_STX | MSG_OTHER int

record CInv =
  inv_type :: GetDataMsg
  inv_hash :: uint256

text \<open>
  What \<^verbatim>\<open>AlreadyHave\<close> asks of the collaborators whose code is outside this file, taken as
  parameters: the hash of the tip of the active chain (\<open>None\<close> when \<^verbatim>\<open>Tip()\<close> is null),
  \<^verbatim>\<open>mempool.exists\<close>, \<^verbatim>\<open>pcoinsTip->HaveCoinInCache\<close>, \<^verbatim>\<open>mapBlockIndex.count\<close> and
  \<^verbatim>\<open>g_stxmempool->exists\<close>.
\<close>
record chain_view =
  Tip_GetBlockHash :: "uint256 option"
  mempool_exists :: "uint256 \<Rightarrow> bool"
  HaveCoinInCache :: "COutPoint \<Rightarrow> bool"
  mapBlockIndex_count :: "uint256 \<Rightarrow> nat"
  stxmempool_exists :: "uint256 \<Rightarrow> bool"

definition AlreadyHave :: "chain_view \<Rightarrow> CInv \<Rightarrow> net_state \<Rightarrow> failure + (bool \<times> net_state)" where
  "AlreadyHave chain cinv s =
     (case inv_type cinv of
        MSG_TX \<Rightarrow>
          (case recentRejects s of
             None \<Rightarrow> Inl AssertionFailed
           | Some _ \<Rightarrow>
              (case Tip_GetBlockHash chain of
                 None \<Rightarrow> Inl NullDereference
               | Some tip \<Rightarrow>
                   let s1 = (if tip \<noteq> hashRecentRejectsChainTip s
                             then s\<lparr>hashRecentRejectsChainTip := tip, recentRejects := Some {}\<rparr>
                             else s)
                   in Inr ((case recentRejects s1 of None \<Rightarrow> False | Some rr \<Rightarrow> inv_hash cinv \<in> rr)
                           \<or> mempool_exists chain (inv_hash cinv)
                           \<or> inv_hash cinv |\<in>| fmdom (mapOrphanTransactions s1)
                           \<or> HaveCoinInCache chain \<lparr>op_hash = inv_hash cinv, op_n = 0\<rparr>
                           \<or> HaveCoinInCache chain \<lparr>op_hash = inv_hash cinv, op_n = 1\<rparr>,
                           s1)))
      | MSG_BLOCK \<Rightarrow> Inr (mapBlockIndex_count chain (inv_hash cinv) \<noteq> 0, s)
      | MSG_STX \<Rightarrow> Inr (stxmempool_exists chain (inv_hash cinv), s)
      | MSG_OTHER _ \<Rightarrow> Inr (True, s))"

section \<open>Inbound messages\<close>

text \<open>
  Modelled from the spec: the command names of \<^verbatim>\<open>NetMsgType\<close> and the reject codes are
  defined outside the sources at hand. The specification lists the commands by their wire
  names and gives the code of a duplicate as 0x12.
\<close>
definition NetMsgType_VERSION :: string where "NetMsgType_VERSION = ''version''"
definition NetMsgType_PING :: string where "NetMsgType_PING = ''ping''"
definition NetMsgType_PONG :: string where "NetMsgType_PONG = ''pong''"
definition NetMsgType_REJECT :: string where "NetMsgType_REJECT = ''reject''"
definition NetMsgType_FILTERLOAD :: string where "NetMsgType_FILTERLOAD = ''filterload''"
definition NetMsgType_FILTERADD :: string where "NetMsgType_FILTERADD = ''filteradd''"
definition NetMsgType_FILTERCLEAR :: string where "NetMsgType_FILTERCLEAR = ''filterclear''"
definition REJECT_DUPLICATE :: "8 word" where "REJECT_DUPLICATE = 0x12"

text \<open>
  Constants that are declared outside the sources at hand and whose values the specification
  does not give, taken as parameters.
\<close>
record protocol_constants =
  NODE_BLOOM :: "64 word"
  NO_BLOOM_VERSION :: int
  PING_INTERVAL :: int

text \<open>\<^verbatim>\<open>vRecv >> nonce\<close> for a \<^verbatim>\<open>uint64_t\<close>: the first eight bytes, least significant first.\<close>
definition read_uint64 :: "8 word list \<Rightarrow> 64 word" where
  "read_uint64 vRecv = foldr (\<lambda>b acc. or (ucast b) (push_bit 8 acc)) (take 8 vRecv) 0"

text \<open>
  The branch of \<^verbatim>\<open>ProcessMessage\<close> for \<^verbatim>\<open>pong\<close>. It writes the connection only.
\<close>
definition ProcessMessage_PONG :: "CNode \<Rightarrow> 8 word list \<Rightarrow> int \<Rightarrow> CNode" where
  "ProcessMessage_PONG pfrom vRecv nTimeReceived =
     (let pingUsecEnd = nTimeReceived;
          nAvail = length vRecv;
          (bPingFinished, pfrom1) =
            (if nAvail \<ge> 8 then
               let nonce = read_uint64 vRecv in
               if nPingNonceSent pfrom \<noteq> 0 then
                 if nonce = nPingNonceSent pfrom then
                   let pingUsecTime = pingUsecEnd - nPingUsecStart pfrom in
                   if pingUsecTime > 0
                   then (True, pfrom\<lparr>nPingUsecTime := pingUsecTime,
                                     nMinPingUsecTime := min (nMinPingUsecTime pfrom) pingUsecTime\<rparr>)
                   else (True, pfrom)
                 else if nonce = 0 then (True, pfrom)
                 else (False, pfrom)
               else (False, pfrom)
             else (True, pfrom))
      in if bPingFinished then pfrom1\<lparr>nPingNonceSent := 0\<rparr> else pfrom1)"

text \<open>
  \<^verbatim>\<open>ProcessMessage\<close>: the test hook that drops messages, the guard of the bloom commands,
  the check for a second \<^verbatim>\<open>version\<close>, the check for a message before \<^verbatim>\<open>version\<close>, and the
  \<^verbatim>\<open>pong\<close> branch. \<open>dropRand\<close> is what \<^verbatim>\<open>GetRand\<close> returns in the test hook. The other
  branches of the dispatch (the body of a first \<^verbatim>\<open>version\<close>, and every command that is
  neither \<^verbatim>\<open>version\<close> nor \<^verbatim>\<open>pong\<close>) are the parameter \<open>other\<close>: what is proved holds
  whatever they do. The source tests for \<^verbatim>\<open>pong\<close> after the other commands; each of those
  tests compares the command with a name that is not \<^verbatim>\<open>pong\<close>.
  The result is the returned flag, the connection and the globals.
\<close>
definition ProcessMessage ::
  "(CNode \<Rightarrow> string \<Rightarrow> 8 word list \<Rightarrow> int \<Rightarrow> net_state \<Rightarrow> bool \<times> CNode \<times> net_state) \<Rightarrow>
   ArgsManager \<Rightarrow> protocol_constants \<Rightarrow> 64 word \<Rightarrow>
   CNode \<Rightarrow> string \<Rightarrow> 8 word list \<Rightarrow> int \<Rightarrow> net_state \<Rightarrow> bool \<times> CNode \<times> net_state" where
  "ProcessMessage other gArgs consts dropRand pfrom strCommand vRecv nTimeReceived s =
     (if arg_dropmessagestest gArgs \<noteq> None \<and> dropRand = 0 then (True, pfrom, s)
      else if and (GetLocalServices pfrom) (NODE_BLOOM consts) = 0
            \<and> (strCommand = NetMsgType_FILTERLOAD \<or> strCommand = NetMsgType_FILTERADD
                 \<or> strCommand = NetMsgType_FILTERCLEAR)
            \<and> nVersion pfrom \<ge> NO_BLOOM_VERSION consts
        then (False, pfrom, Misbehaving gArgs (GetId pfrom) 100 ''no-bloom-version'' s)
      else if and (GetLocalServices pfrom) (NODE_BLOOM consts) = 0
            \<and> (strCommand = NetMsgType_FILTERLOAD \<or> strCommand = NetMsgType_FILTERADD
                 \<or> strCommand = NetMsgType_FILTERCLEAR)
            \<and> GetArg (arg_enforcenodebloom gArgs) False
        then (False, pfrom\<lparr>fDisconnect := True\<rparr>, s)
      else if strCommand = NetMsgType_VERSION then
        (if nVersion pfrom \<noteq> 0
         then (False,
               PushMessage pfrom
                 (Make NetMsgType_REJECT
                    [Str strCommand, Byte REJECT_DUPLICATE, Str ''Duplicate version message'']),
               Misbehaving gArgs (GetId pfrom) 1 ''multiple-version'' s)
         else other pfrom strCommand vRecv nTimeReceived s)
      else if nVersion pfrom = 0
        then (False, pfrom, Misbehaving gArgs (GetId pfrom) 1 ''missing-version'' s)
      else if strCommand = NetMsgType_PONG
        then (True, ProcessMessage_PONG pfrom vRecv nTimeReceived, s)
      else other pfrom strCommand vRecv nTimeReceived s)"

section \<open>Outbound tick\<close>

text \<open>
  The loop that draws the nonce of a ping until it is not zero; \<open>GetRandBytes i\<close> is the
  \<open>i\<close>-th draw. The loop does not end when every draw is zero.
\<close>
partial_function (option) draw_nonce :: "(nat \<Rightarrow> 64 word) \<Rightarrow> nat \<Rightarrow> 64 word option" where
  "draw_nonce GetRandBytes i =
     (if GetRandBytes i = 0 then draw_nonce GetRandBytes (Suc i) else Some (GetRandBytes i))"

text \<open>
  \<^verbatim>\<open>SendMessages\<close>: the guard and the ping. \<open>now1\<close> and \<open>now2\<close> are the two readings of
  \<^verbatim>\<open>GetTimeMicros()\<close>. What follows the ping (from the attempt to take \<^verbatim>\<open>cs_main\<close> on) is
  the parameter \<open>rest\<close>. The result is \<open>None\<close> when the call does not return.
\<close>
definition SendMessages ::
  "(CNode \<Rightarrow> net_state \<Rightarrow> bool \<times> CNode \<times> net_state) \<Rightarrow> protocol_constants \<Rightarrow>
   int \<Rightarrow> int \<Rightarrow> (nat \<Rightarrow> 64 word) \<Rightarrow> CNode \<Rightarrow> net_state \<Rightarrow> (bool \<times> CNode \<times> net_state) option" where
  "SendMessages rest consts now1 now2 GetRandBytes pto s =
     (if \<not> fSuccessfullyConnected pto \<or> fDisconnect pto then Some (True, pto, s)
      else
        let pingSend = fPingQueued pto;
            pingSend = (if nPingNonceSent pto = 0
                           \<and> nPingUsecStart pto + PING_INTERVAL consts * 1000000 < now1
                        then True else pingSend)
        in if pingSend then
             (case draw_nonce GetRandBytes 0 of
                None \<Rightarrow> None
              | Some nonce \<Rightarrow>
                  Some (rest (PushMessage
                               (pto\<lparr>fPingQueued := False, nPingUsecStart := now2,
                                    nPingNonceSent := nonce\<rparr>)
                               (Make NetMsgType_PING [UInt64 nonce])) s))
           else Some (rest pto s))"

section \<open>The states of the node\<close>

text \<open>
  The state before the first peer connects. \<^verbatim>\<open>recentRejects\<close>, \<^verbatim>\<open>mapBlocksInFlight\<close>,
  \<^verbatim>\<open>hashRecentRejectsChainTip\<close>, \<^verbatim>\<open>mapBlockSource\<close> and \<^verbatim>\<open>mapNodeState\<close> are declared in
  \<^verbatim>\<open>messages.cpp\<close> without an initialiser: the maps start empty, the hash is null, and
  \<^verbatim>\<open>recentRejects\<close> is a null pointer until the constructor of \<^verbatim>\<open>PeerLogicValidation\<close>
  allocates it.

  Modelled from the spec: the three counters and the two orphan maps are declared outside
  the sources at hand; the specification has the counters at zero and the orphan pool empty
  while no peer is registered.
\<close>
definition net_state_init :: net_state where
  "net_state_init =
     \<lparr>mapNodeState = fmempty, mapBlocksInFlight = fmempty, mapBlockSource = fmempty,
      nSyncStarted = 0, nPreferredDownload = 0, nPeersWithValidatedDownloads = 0,
      mapOrphanTransactions = fmempty, mapOrphanTransactionsByPrev = fmempty,
      recentRejects = None, hashRecentRejectsChainTip = 0\<rparr>"

section \<open>Invariants of the specification\<close>

text \<open>
  The peers whose count of in-flight blocks with validated headers is positive, and the
  third invariant of the specification: the global counter equals their number.
\<close>
definition validated_peers :: "(NodeId, CNodeState) fmap \<Rightarrow> NodeId fset" where
  "validated_peers m =
     ffilter (\<lambda>p. case fmlookup m p of None \<Rightarrow> False
                  | Some st \<Rightarrow> 0 < nBlocksInFlightValidHeaders st) (fmdom m)"

definition validated_counter_ok :: "net_state \<Rightarrow> bool" where
  "validated_counter_ok s =
     (nPeersWithValidatedDownloads s = int (fcard (validated_peers (mapNodeState s))))"

text \<open>
  The peers of the registry whose state satisfies a predicate, and the fourth invariant of
  the specification: \<^verbatim>\<open>nPreferredDownload\<close> equals the number of peers with the
  preferred-download flag.
\<close>
definition peers_where :: "(CNodeState \<Rightarrow> bool) \<Rightarrow> (NodeId, CNodeState) fmap \<Rightarrow> NodeId fset" where
  "peers_where P m =
     ffilter (\<lambda>p. case fmlookup m p of None \<Rightarrow> False | Some st \<Rightarrow> P st) (fmdom m)"

definition preferred_peers :: "(NodeId, CNodeState) fmap \<Rightarrow> NodeId fset" where
  "preferred_peers m =
     ffilter (\<lambda>p. case fmlookup m p of None \<Rightarrow> False | Some st \<Rightarrow> fPreferredDownload st) (fmdom m)"

definition preferred_counter_ok :: "net_state \<Rightarrow> bool" where
  "preferred_counter_ok s =
     (nPreferredDownload s = int (fcard (preferred_peers (mapNodeState s))))"

text \<open>
  The first invariant of the specification: every entry of \<^verbatim>\<open>mapBlocksInFlight\<close> names a
  registered peer and a node of that peer's list that holds the hash, every node of a
  peer's list is what the index holds for its hash, and, for every peer, the nodes of the
  list are different nodes and the count of validated headers is the number of nodes whose
  header is validated.
\<close>
definition inflight_inv :: "net_state \<Rightarrow> bool" where
  "inflight_inv s \<longleftrightarrow>
     (\<forall>h nodeid it. fmlookup (mapBlocksInFlight s) h = Some (nodeid, it) \<longrightarrow>
        (\<exists>st qb. fmlookup (mapNodeState s) nodeid = Some st
             \<and> map_of (vBlocksInFlight st) it = Some qb \<and> qb_hash qb = h))
   \<and> (\<forall>nodeid st it qb. fmlookup (mapNodeState s) nodeid = Some st
           \<and> (it, qb) \<in> set (vBlocksInFlight st) \<longrightarrow>
        fmlookup (mapBlocksInFlight s) (qb_hash qb) = Some (nodeid, it))
   \<and> (\<forall>nodeid st. fmlookup (mapNodeState s) nodeid = Some st \<longrightarrow>
        distinct (map fst (vBlocksInFlight st))
        \<and> nBlocksInFlightValidHeaders st
            = int (length (filter (\<lambda>x. qb_fValidatedHeaders (snd x)) (vBlocksInFlight st))))"

text \<open>
  The size of the orphan pool, and what it means that the reverse index has no entry for
  orphan \<open>h\<close> under the previous hash \<open>p\<close>.
\<close>
definition not_indexed :: "(uint256, uint256 set) fmap \<Rightarrow> uint256 \<Rightarrow> uint256 \<Rightarrow> bool" where
  "not_indexed byPrev p h = (case fmlookup byPrev p of None \<Rightarrow> True | Some S \<Rightarrow> h \<notin> S)"

definition orphan_count :: "net_state \<Rightarrow> nat" where
  "orphan_count s = fcard (fmdom (mapOrphanTransactions s))"

text \<open>
  The orphan pool: every orphan is stored under the hash of its transaction, and the
  reverse index holds an orphan only under the previous hash of one of its inputs (one half
  of the sixth invariant of the specification).
\<close>
definition orphan_inv :: "net_state \<Rightarrow> bool" where
  "orphan_inv s \<longleftrightarrow>
     (\<forall>k orphan. fmlookup (mapOrphanTransactions s) k = Some orphan \<longrightarrow> GetHash (otx_tx orphan) = k)
   \<and> (\<forall>p h. \<not> not_indexed (mapOrphanTransactionsByPrev s) p h \<longrightarrow>
         (\<exists>orphan. fmlookup (mapOrphanTransactions s) h = Some orphan
             \<and> p \<in> (\<lambda>txin. op_hash (prevout txin)) ` set (vin (otx_tx orphan))))"

text \<open>
  A write that touches none of the above: the in-flight index, the two counters, the orphan
  maps, the set of registered peers, and of every peer the in-flight list, its two counts
  and the preferred-download flag are as before. Everything else may change
  (\<^verbatim>\<open>nSyncStarted\<close>, \<^verbatim>\<open>mapBlockSource\<close>, the rejects filter and its tip, and of a peer the
  score, the ban flag, the connected and sync-started flags and the two timestamps).
\<close>
definition untracked_write :: "net_state \<Rightarrow> net_state \<Rightarrow> bool" where
  "untracked_write s s' \<longleftrightarrow>
     mapBlocksInFlight s' = mapBlocksInFlight s
   \<and> nPreferredDownload s' = nPreferredDownload s
   \<and> nPeersWithValidatedDownloads s' = nPeersWithValidatedDownloads s
   \<and> mapOrphanTransactions s' = mapOrphanTransactions s
   \<and> mapOrphanTransactionsByPrev s' = mapOrphanTransactionsByPrev s
   \<and> fmdom (mapNodeState s') = fmdom (mapNodeState s)
   \<and> (\<forall>p st st'. fmlookup (mapNodeState s) p = Some st \<and> fmlookup (mapNodeState s') p = Some st'
         \<longrightarrow> vBlocksInFlight st' = vBlocksInFlight st
           \<and> nBlocksInFlight st' = nBlocksInFlight st
           \<and> nBlocksInFlightValidHeaders st' = nBlocksInFlightValidHeaders st
           \<and> fPreferredDownload st' = fPreferredDownload st)"

definition net_inv :: "net_state \<Rightarrow> bool" where
  "net_inv s \<longleftrightarrow> inflight_inv s \<and> validated_counter_ok s \<and> preferred_counter_ok s \<and> orphan_inv s"

text \<open>
  The states that the node can be in: it starts with empty maps and takes steps of the
  functions of this file. In messages.cpp the in-flight list and index, the two in-flight
  counts of a peer, its preferred-download flag and the counters \<^verbatim>\<open>nPreferredDownload\<close> and
  \<^verbatim>\<open>nPeersWithValidatedDownloads\<close> are written by \<^verbatim>\<open>InitializeNode\<close>, \<^verbatim>\<open>FinalizeNode\<close>,
  \<^verbatim>\<open>MarkBlockAsInFlight\<close>, \<^verbatim>\<open>MarkBlockAsReceived\<close> and \<^verbatim>\<open>UpdatePreferredDownload\<close> only,
  and the orphan maps by \<^verbatim>\<open>AddOrphanTx\<close> and \<^verbatim>\<open>EraseOrphanTx\<close> (also through
  \<^verbatim>\<open>LimitOrphanTxSize\<close>, \<^verbatim>\<open>EraseOrphansFor\<close> and the handlers that call them) only; where a
  handler reads \<^verbatim>\<open>mapOrphanTransactions[h]\<close>, \<open>h\<close> comes from the reverse index. Every
  other write of the file is a step \<open>other\<close>. A call that does not complete is no step.
\<close>
inductive reachable :: "net_state \<Rightarrow> bool" where
  init: "reachable net_state_init"
| initialize: "reachable s \<Longrightarrow> reachable (InitializeNode nodeid s)"
| finalize: "reachable s \<Longrightarrow> FinalizeNode nodeid s = Inr (fUpdateConnectionTime, s') \<Longrightarrow> reachable s'"
| in_flight: "reachable s \<Longrightarrow> MarkBlockAsInFlight now1 now2 nodeid h pindex s = Inr s' \<Longrightarrow> reachable s'"
| received: "reachable s \<Longrightarrow> MarkBlockAsReceived now h s = Inr (r, s') \<Longrightarrow> reachable s'"
| preferred: "reachable s \<Longrightarrow> UpdatePreferredDownload node s = Inr s' \<Longrightarrow> reachable s'"
| add_orphan: "reachable s \<Longrightarrow> reachable (snd (AddOrphanTx txn peer s))"
| erase_orphan: "reachable s \<Longrightarrow> reachable (EraseOrphanTx h s)"
| limit_orphans: "reachable s \<Longrightarrow> LimitOrphanTxSize GetRandHash nMaxOrphans s = Inr (nEvicted, s')
                   \<Longrightarrow> reachable s'"
| misbehaving: "reachable s \<Longrightarrow> reachable (Misbehaving gArgs pnode howmuch reason s)"
| already_have: "reachable s \<Longrightarrow> AlreadyHave chain cinv s = Inr (r, s') \<Longrightarrow> reachable s'"
| other: "reachable s \<Longrightarrow> untracked_write s s' \<Longrightarrow> reachable s'"

section \<open>Concrete states and inputs\<close>

text \<open>The states and inputs at which the theorems below are instantiated.\<close>

definition ex_peer :: CNodeState where
  "ex_peer = CNodeState_new\<lparr>nMisbehavior := 99\<rparr>"

definition ex_state :: net_state where
  "ex_state = net_state_init\<lparr>mapNodeState := fmupd 7 ex_peer fmempty, recentRejects := Some {}\<rparr>"

definition ex_args :: ArgsManager where
  "ex_args = \<lparr>arg_banscore = None, arg_dropmessagestest = None, arg_enforcenodebloom = None\<rparr>"

definition ex_consts :: protocol_constants where
  "ex_consts = \<lparr>NODE_BLOOM = 4, NO_BLOOM_VERSION = 70011, PING_INTERVAL = 120\<rparr>"

definition ex_node :: CNode where
  "ex_node = \<lparr>GetId = 7, nVersion = 70015, GetLocalServices = 1, fInbound = True,
     fWhitelisted = False, fOneShot = False, fClient = False, fSuccessfullyConnected = True,
     fDisconnect = False, fPingQueued = False, nPingNonceSent = 5, nPingUsecStart = 1000,
     nPingUsecTime = 0, nMinPingUsecTime = 500, vSendMsg = []\<rparr>"

text \<open>A stand-in for the branches of the dispatch that are not modelled: it does nothing.\<close>
definition other_ignored ::
  "CNode \<Rightarrow> string \<Rightarrow> 8 word list \<Rightarrow> int \<Rightarrow> net_state \<Rightarrow> bool \<times> CNode \<times> net_state" where
  "other_ignored pfrom strCommand vRecv nTimeReceived s = (True, pfrom, s)"

text \<open>A stand-in for the rest of the outbound tick: it queues a message and reports failure.\<close>
definition rest_sends :: "CNode \<Rightarrow> net_state \<Rightarrow> bool \<times> CNode \<times> net_state" where
  "rest_sends pto s = (False, PushMessage pto (Make ''getdata'' []), s)"

definition ex_chain :: chain_view where
  "ex_chain = \<lparr>Tip_GetBlockHash = Some 2, mempool_exists = (\<lambda>h. False),
     HaveCoinInCache = (\<lambda>outpoint. False), mapBlockIndex_count = (\<lambda>h. 0),
     stxmempool_exists = (\<lambda>h. False)\<rparr>"

definition ex_rejected :: net_state where
  "ex_rejected = ex_state\<lparr>recentRejects := Some {42}, hashRecentRejectsChainTip := 1\<rparr>"

definition ex_tx :: CTransaction where
  "ex_tx = \<lparr>GetHash = 42, vin = [\<lparr>prevout = \<lparr>op_hash = 10, op_n = 0\<rparr>\<rparr>,
                                  \<lparr>prevout = \<lparr>op_hash = 11, op_n = 3\<rparr>\<rparr>],
            GetSerializeSize = 250\<rparr>"

definition ex_queued :: QueuedBlock where
  "ex_queued = \<lparr>qb_hash = 42, qb_pindex = Some 1, qb_fValidatedHeaders = True\<rparr>"

definition ex_in_flight :: net_state where
  "ex_in_flight =
     ex_state\<lparr>mapNodeState :=
                 fmupd 7 (ex_peer\<lparr>vBlocksInFlight := [(0, ex_queued)], nDownloadingSince := 20,
                                  nBlocksInFlight := 1, nBlocksInFlightValidHeaders := 1\<rparr>) fmempty,
              nPeersWithValidatedDownloads := 1,
              mapBlocksInFlight := fmupd 42 (7, 0) fmempty\<rparr>"

definition ex_requeued :: net_state where
  "ex_requeued =
     ex_in_flight\<lparr>mapNodeState :=
        fmupd 7 (ex_peer\<lparr>vBlocksInFlight :=
                            [(0, \<lparr>qb_hash = 42, qb_pindex = None, qb_fValidatedHeaders = False\<rparr>)],
                         nDownloadingSince := 50, nBlocksInFlight := 1\<rparr>) fmempty,
        nPeersWithValidatedDownloads := 0\<rparr>"

definition ex_released :: net_state where
  "ex_released = ex_state\<lparr>mapNodeState := fmupd 7 (ex_peer\<lparr>nDownloadingSince := 60\<rparr>) fmempty\<rparr>"

definition ex_tx2 :: CTransaction where
  "ex_tx2 = \<lparr>GetHash = 50, vin = [\<lparr>prevout = \<lparr>op_hash = 10, op_n = 1\<rparr>\<rparr>], GetSerializeSize = 100\<rparr>"

definition ex_orphans :: net_state where
  "ex_orphans =
     ex_state\<lparr>mapOrphanTransactions :=
                 fmupd 42 \<lparr>otx_tx = ex_tx, otx_fromPeer = 7\<rparr>
                   (fmupd 50 \<lparr>otx_tx = ex_tx2, otx_fromPeer = 7\<rparr> fmempty),
              mapOrphanTransactionsByPrev := fmupd 10 {42, 50} (fmupd 11 {42} fmempty)\<rparr>"

definition ex_finalized :: net_state where
  "ex_finalized = net_state_init\<lparr>recentRejects := Some {}\<rparr>"

section \<open>Verified properties\<close>

subsection \<open>Blocks in flight and the counter of peers with validated downloads\<close>

lemma validated_peers_iff:
  "p |\<in>| validated_peers m \<longleftrightarrow> (\<exists>st. fmlookup m p = Some st \<and> 0 < nBlocksInFlightValidHeaders st)"
  by (auto simp: validated_peers_def fmlookup_dom_iff split: option.splits)

lemma validated_peers_fmupd:
  "validated_peers (fmupd p st' m) =
     (if 0 < nBlocksInFlightValidHeaders st' then finsert p (validated_peers m |-| {|p|})
      else validated_peers m |-| {|p|})"
  by (rule fset_eqI) (auto simp: validated_peers_iff)

lemma fcard_validated_peers_fmupd:
  assumes "fmlookup m p = Some st"
  shows "int (fcard (validated_peers (fmupd p st' m))) =
         int (fcard (validated_peers m)) - of_bool (0 < nBlocksInFlightValidHeaders st)
           + of_bool (0 < nBlocksInFlightValidHeaders st')"
proof -
  have mem: "p |\<in>| validated_peers m \<longleftrightarrow> 0 < nBlocksInFlightValidHeaders st"
    using assms by (simp add: validated_peers_iff)
  have pos: "p |\<in>| validated_peers m \<Longrightarrow> 0 < fcard (validated_peers m)"
    by (metis fcard_fempty fcard_seteq bot.extremum fempty_iff gr0I le_zero_eq)
  have drop: "int (fcard (validated_peers m |-| {|p|})) =
              int (fcard (validated_peers m)) - of_bool (p |\<in>| validated_peers m)"
    using pos by (auto simp: fcard_fminus_fsingleton_if of_nat_diff)
  have ins: "int (fcard (finsert p (validated_peers m |-| {|p|}))) =
             int (fcard (validated_peers m |-| {|p|})) + 1"
    by (simp add: fcard_finsert_disjoint del: finsert_fminus_single)
  show ?thesis
    unfolding validated_peers_fmupd using ins drop mem
    by (simp del: finsert_fminus_single)
qed

lemma MarkBlockAsReceived_validated_counter:
  assumes "validated_counter_ok s" and "MarkBlockAsReceived now h s = Inr (r, s')"
  shows "validated_counter_ok s'"
proof (cases "fmlookup (mapBlocksInFlight s) h")
  case None
  with assms show ?thesis by (simp add: MarkBlockAsReceived_def)
next
  case (Some a)
  obtain nodeid it where a: "a = (nodeid, it)" by (cases a)
  from assms(2) Some a obtain state entry where
    st: "fmlookup (mapNodeState s) nodeid = Some state"
    and en: "map_of (vBlocksInFlight state) it = Some entry"
    by (auto simp: MarkBlockAsReceived_def State_def split: option.splits)
  from assms(2) Some a st en obtain state3 where
    reg: "mapNodeState s' = fmupd nodeid state3 (mapNodeState s)"
    and n3: "nBlocksInFlightValidHeaders state3 =
              nBlocksInFlightValidHeaders state - of_bool (qb_fValidatedHeaders entry)"
    and cnt: "nPeersWithValidatedDownloads s' =
              (if nBlocksInFlightValidHeaders state - of_bool (qb_fValidatedHeaders entry) = 0
                  \<and> qb_fValidatedHeaders entry
               then nPeersWithValidatedDownloads s - 1 else nPeersWithValidatedDownloads s)"
    by (auto simp: MarkBlockAsReceived_def State_def Let_def split: if_splits)
  show ?thesis
    using assms(1) fcard_validated_peers_fmupd[OF st, of state3]
    by (auto simp: validated_counter_ok_def reg n3 cnt)
qed

lemma MarkBlockAsInFlight_validated_counter:
  assumes "validated_counter_ok s" and "MarkBlockAsInFlight now1 now2 nodeid h pindex s = Inr s'"
  shows "validated_counter_ok s'"
proof -
  from assms(2) obtain r s1 state where
    rc: "MarkBlockAsReceived now1 h s = Inr (r, s1)"
    and st: "fmlookup (mapNodeState s1) nodeid = Some state"
    by (auto simp: MarkBlockAsInFlight_def State_def split: option.splits sum.splits)
  have ok1: "validated_counter_ok s1"
    using MarkBlockAsReceived_validated_counter[OF assms(1) rc] .
  from assms(2) rc st obtain state2 where
    reg: "mapNodeState s' = fmupd nodeid state2 (mapNodeState s1)"
    and n2: "nBlocksInFlightValidHeaders state2 =
              nBlocksInFlightValidHeaders state + of_bool (pindex \<noteq> None)"
    and cnt: "nPeersWithValidatedDownloads s' =
              (if nBlocksInFlightValidHeaders state + of_bool (pindex \<noteq> None) = 1 \<and> pindex \<noteq> None
               then nPeersWithValidatedDownloads s1 + 1 else nPeersWithValidatedDownloads s1)"
    by (auto simp: MarkBlockAsInFlight_def State_def Let_def split: option.splits if_splits)
  show ?thesis
    using ok1 fcard_validated_peers_fmupd[OF st, of state2]
    by (auto simp: validated_counter_ok_def reg n2 cnt)
qed



text \<open>
  C1. In every state in which \<^verbatim>\<open>nPeersWithValidatedDownloads\<close> equals the number of peers
  whose count of in-flight blocks with validated headers is positive, every call of
  \<^verbatim>\<open>MarkBlockAsInFlight\<close> (any peer, hash and header index) and every call of
  \<^verbatim>\<open>MarkBlockAsReceived\<close> (any hash) that completes leaves a state in which the equality
  holds again. (A call does not complete when its assertion fails or it follows a null
  pointer or a stale iterator.)
\<close>
theorem validated_counter_preserved:
  assumes "validated_counter_ok s"
  shows "(\<forall>now1 now2 nodeid h pindex s'.
            MarkBlockAsInFlight now1 now2 nodeid h pindex s = Inr s' \<longrightarrow> validated_counter_ok s')
       \<and> (\<forall>now h r s'. MarkBlockAsReceived now h s = Inr (r, s') \<longrightarrow> validated_counter_ok s')"
  using assms MarkBlockAsInFlight_validated_counter MarkBlockAsReceived_validated_counter
  by blast

lemma validated_peers_fmempty: "validated_peers fmempty = {||}"
  by (simp add: validated_peers_def)

lemma ex_state_ok: "validated_counter_ok ex_state"
  by (simp add: validated_counter_ok_def ex_state_def net_state_init_def validated_peers_fmupd
      validated_peers_fmempty ex_peer_def CNodeState_new_def)

lemma ex_mark_in_flight: "MarkBlockAsInFlight 10 20 7 42 (Some 1) ex_state = Inr ex_in_flight"
  by (simp add: MarkBlockAsInFlight_def MarkBlockAsReceived_def State_def ex_state_def
      net_state_init_def ex_in_flight_def ex_peer_def CNodeState_new_def new_node_def ex_queued_def)

lemma ex_mark_received:
  "MarkBlockAsReceived 30 42 ex_in_flight =
     Inr (True, ex_state\<lparr>mapNodeState := fmupd 7 (ex_peer\<lparr>nDownloadingSince := 30\<rparr>) fmempty\<rparr>)"
  by (simp add: MarkBlockAsReceived_def State_def ex_state_def list_begin_is_def
      net_state_init_def ex_in_flight_def ex_peer_def CNodeState_new_def ex_queued_def
      fmdrop_fmupd_same)

text \<open>
  Peer 7 has nothing in flight and the counter is 0; block 42 with a validated header is
  marked in flight (counter 1, peer 7 counted), then received (counter 0 again).
\<close>
theorem validated_counter_preserved_witness:
  "validated_counter_ok ex_state \<and> nPeersWithValidatedDownloads ex_state = 0 \<and>
   MarkBlockAsInFlight 10 20 7 42 (Some 1) ex_state = Inr ex_in_flight \<and>
   nPeersWithValidatedDownloads ex_in_flight = 1 \<and>
   validated_peers (mapNodeState ex_in_flight) = {|7|} \<and>
   validated_counter_ok ex_in_flight \<and>
   MarkBlockAsReceived 30 42 ex_in_flight
     = Inr (True, ex_state\<lparr>mapNodeState := fmupd 7 (ex_peer\<lparr>nDownloadingSince := 30\<rparr>) fmempty\<rparr>) \<and>
   validated_counter_ok (ex_state\<lparr>mapNodeState := fmupd 7 (ex_peer\<lparr>nDownloadingSince := 30\<rparr>) fmempty\<rparr>)"
proof -
  have a: "validated_counter_ok ex_in_flight"
    using validated_counter_preserved[OF ex_state_ok] ex_mark_in_flight by blast
  have b: "validated_counter_ok (ex_state\<lparr>mapNodeState := fmupd 7 (ex_peer\<lparr>nDownloadingSince := 30\<rparr>) fmempty\<rparr>)"
    using validated_counter_preserved[OF a] ex_mark_received by blast
  have c: "validated_peers (mapNodeState ex_in_flight) = {|7|}"
    by (simp add: ex_in_flight_def validated_peers_fmupd validated_peers_fmempty)
  show ?thesis
    using a b c ex_state_ok ex_mark_in_flight ex_mark_received
    by (simp add: ex_state_def net_state_init_def ex_in_flight_def)
qed

subsection \<open>Marking a block in flight and then received\<close>

lemma map_of_append_last: "\<exists>e. map_of (xs @ [(k, v)]) k = Some e"
  by (cases "map_of xs k") (auto simp: map_add_def)

lemma MarkBlockAsReceived_index:
  assumes "MarkBlockAsReceived now h s = Inr (r, s')"
  shows "mapBlocksInFlight s' = fmdrop h (mapBlocksInFlight s)
         \<and> fmdom (mapNodeState s') = fmdom (mapNodeState s)"
proof (cases "fmlookup (mapBlocksInFlight s) h")
  case None
  then have "fmdrop h (mapBlocksInFlight s) = mapBlocksInFlight s"
    by (simp add: fmdrop_idle fmdom_notI)
  with assms None show ?thesis by (simp add: MarkBlockAsReceived_def)
next
  case (Some a)
  with assms show ?thesis
    by (auto simp: MarkBlockAsReceived_def State_def Let_def fmlookup_dom_iff
        split: option.splits prod.splits if_splits)
qed

lemma MarkBlockAsReceived_not_in_flight:
  "fmlookup (mapBlocksInFlight s) h = None \<Longrightarrow> MarkBlockAsReceived now h s = Inr (False, s)"
  by (simp add: MarkBlockAsReceived_def)

text \<open>
  C3, amended. For a registered peer and a hash that is not in flight, \<^verbatim>\<open>MarkBlockAsInFlight\<close>
  followed by \<^verbatim>\<open>MarkBlockAsReceived\<close> of the same hash completes, the second call returns
  true, and \<^verbatim>\<open>mapBlocksInFlight\<close> is what it was before the two calls. In general (the first
  conjunct), whenever the first call completes the second one does, returns true, and leaves
  the index as it was before with the hash removed.
\<close>
theorem in_flight_then_received:
  "(\<forall>s1. MarkBlockAsInFlight now1 now2 nodeid h pindex s = Inr s1 \<longrightarrow>
       (\<exists>s2. MarkBlockAsReceived now3 h s1 = Inr (True, s2)
            \<and> mapBlocksInFlight s2 = fmdrop h (mapBlocksInFlight s)))
   \<and> (nodeid |\<in>| fmdom (mapNodeState s) \<and> h |\<notin>| fmdom (mapBlocksInFlight s) \<longrightarrow>
       (\<exists>s1 s2. MarkBlockAsInFlight now1 now2 nodeid h pindex s = Inr s1
            \<and> MarkBlockAsReceived now3 h s1 = Inr (True, s2)
            \<and> mapBlocksInFlight s2 = mapBlocksInFlight s))"
proof -
  have general: "\<exists>s2. MarkBlockAsReceived now3 h s1 = Inr (True, s2)
            \<and> mapBlocksInFlight s2 = fmdrop h (mapBlocksInFlight s)"
    if mark: "MarkBlockAsInFlight now1 now2 nodeid h pindex s = Inr s1" for s1
  proof -
    from mark obtain r s0 state where
      rc: "MarkBlockAsReceived now1 h s = Inr (r, s0)"
      and st: "fmlookup (mapNodeState s0) nodeid = Some state"
      by (auto simp: MarkBlockAsInFlight_def State_def split: option.splits sum.splits)
    define it where "it = new_node (vBlocksInFlight state)"
    define newentry where
      "newentry = \<lparr>qb_hash = h, qb_pindex = pindex, qb_fValidatedHeaders = (pindex \<noteq> None)\<rparr>"
    from mark rc st obtain state2 where
      reg: "mapNodeState s1 = fmupd nodeid state2 (mapNodeState s0)"
      and lst: "vBlocksInFlight state2 = vBlocksInFlight state @ [(it, newentry)]"
      and idx: "mapBlocksInFlight s1 = fmupd h (nodeid, it) (mapBlocksInFlight s0)"
      by (auto simp: MarkBlockAsInFlight_def State_def Let_def it_def newentry_def
          split: option.splits if_splits)
    obtain e where e: "map_of (vBlocksInFlight state2) it = Some e"
      unfolding lst using map_of_append_last by fast
    have "\<exists>s2. MarkBlockAsReceived now3 h s1 = Inr (True, s2)"
      using e by (simp add: MarkBlockAsReceived_def idx reg State_def Let_def)
    then obtain s2 where s2: "MarkBlockAsReceived now3 h s1 = Inr (True, s2)" ..
    have "mapBlocksInFlight s2 = fmdrop h (mapBlocksInFlight s1)"
      using MarkBlockAsReceived_index[OF s2] by simp
    also have "\<dots> = fmdrop h (mapBlocksInFlight s0)"
      by (simp add: idx fmdrop_fmupd_same)
    also have "\<dots> = fmdrop h (mapBlocksInFlight s)"
      using MarkBlockAsReceived_index[OF rc] by simp
    finally show ?thesis using s2 by blast
  qed
  have fresh: "\<exists>s1 s2. MarkBlockAsInFlight now1 now2 nodeid h pindex s = Inr s1
            \<and> MarkBlockAsReceived now3 h s1 = Inr (True, s2)
            \<and> mapBlocksInFlight s2 = mapBlocksInFlight s"
    if reg: "nodeid |\<in>| fmdom (mapNodeState s)" and nif: "h |\<notin>| fmdom (mapBlocksInFlight s)"
  proof -
    from reg obtain st where st: "fmlookup (mapNodeState s) nodeid = Some st"
      by (auto simp: fmlookup_dom_iff)
    from nif have none: "fmlookup (mapBlocksInFlight s) h = None"
      by (simp add: fmdom_notD)
    have "\<exists>s1. MarkBlockAsInFlight now1 now2 nodeid h pindex s = Inr s1"
      using st by (simp add: MarkBlockAsInFlight_def MarkBlockAsReceived_not_in_flight[OF none]
          State_def Let_def)
    then obtain s1 where s1: "MarkBlockAsInFlight now1 now2 nodeid h pindex s = Inr s1" ..
    from general[OF s1] obtain s2 where
      "MarkBlockAsReceived now3 h s1 = Inr (True, s2)"
      "mapBlocksInFlight s2 = fmdrop h (mapBlocksInFlight s)" by blast
    moreover have "fmdrop h (mapBlocksInFlight s) = mapBlocksInFlight s"
      using nif by (simp add: fmdrop_idle)
    ultimately show ?thesis using s1 by auto
  qed
  show ?thesis using general fresh by blast
qed


text \<open>
  C3, as stated, fails when the hash is in flight already: block 42 is in flight from
  peer 7; marking it in flight again and then received leaves an index without it.
\<close>
theorem in_flight_then_received_counterexample:
  "fmlookup (mapBlocksInFlight ex_in_flight) 42 = Some (7, 0) \<and>
   MarkBlockAsInFlight 40 50 7 42 None ex_in_flight = Inr ex_requeued \<and>
   MarkBlockAsReceived 60 42 ex_requeued = Inr (True, ex_released) \<and>
   fmlookup (mapBlocksInFlight ex_released) 42 = None"
  by (simp add: MarkBlockAsInFlight_def MarkBlockAsReceived_def State_def ex_state_def
      list_begin_is_def net_state_init_def ex_in_flight_def ex_peer_def CNodeState_new_def
      new_node_def ex_queued_def ex_requeued_def ex_released_def fmdrop_fmupd_same)

text \<open>Block 43 is not in flight: the two calls leave the index of \<open>ex_in_flight\<close>.\<close>
theorem in_flight_then_received_witness:
  "7 |\<in>| fmdom (mapNodeState ex_in_flight) \<and> 43 |\<notin>| fmdom (mapBlocksInFlight ex_in_flight) \<and>
   mapBlocksInFlight (snd (projr (MarkBlockAsReceived 60 43
       (projr (MarkBlockAsInFlight 40 50 7 43 None ex_in_flight))))) = fmupd 42 (7, 0) fmempty"
proof -
  have a: "7 |\<in>| fmdom (mapNodeState ex_in_flight)"
    by (simp add: ex_in_flight_def)
  have b: "43 |\<notin>| fmdom (mapBlocksInFlight ex_in_flight)"
    by (simp add: ex_in_flight_def)
  have c: "mapBlocksInFlight ex_in_flight = fmupd 42 (7, 0) fmempty"
    by (simp add: ex_in_flight_def)
  from in_flight_then_received[of 40 50 7 43 None ex_in_flight 60] a b
  obtain s1 s2 where "MarkBlockAsInFlight 40 50 7 43 None ex_in_flight = Inr s1"
    "MarkBlockAsReceived 60 43 s1 = Inr (True, s2)"
    "mapBlocksInFlight s2 = mapBlocksInFlight ex_in_flight"
    by blast
  then show ?thesis using a b c by simp
qed

subsection \<open>Misbehaviour score and ban threshold\<close>

text \<open>
  Narrowing an \<^verbatim>\<open>int64_t\<close> to \<^verbatim>\<open>int\<close> keeps every value that an \<^verbatim>\<open>int\<close> can hold.
\<close>
lemma narrow_in_range:
  assumes "- (2 ^ 31) \<le> sint (v :: 64 word)" and "sint v < 2 ^ 31"
  shows "sint (ucast v :: 32 word) = sint v"
proof -
  have "sint (ucast v :: 32 word) = signed_take_bit 31 (take_bit 32 (uint v))"
    by (simp add: sint_uint unsigned_ucast_eq)
  also have "\<dots> = signed_take_bit 31 (uint v)"
    by (simp add: signed_take_bit_take_bit)
  also have "\<dots> = signed_take_bit 31 (signed_take_bit 63 (uint v))"
    by (simp add: signed_take_bit_signed_take_bit)
  also have "\<dots> = signed_take_bit 31 (sint v)"
    by (simp add: sint_uint)
  also have "\<dots> = sint v"
    using assms by (simp add: signed_take_bit_int_eq_self)
  finally show ?thesis .
qed

text \<open>
  A configured threshold that does not fit an \<^verbatim>\<open>int\<close> is compared in its narrowed form: with
  \<^verbatim>\<open>-banscore=4294967396\<close> (\<open>2\<^sup>3\<^sup>2 + 100\<close>) a peer at 99 is marked for banning by one more point.
\<close>
lemma Misbehaving_narrowed_threshold:
  "State (Misbehaving (ex_args\<lparr>arg_banscore := Some 4294967396\<rparr>) 7 1 ''multiple-version'' ex_state) 7
     = Some (ex_peer\<lparr>nMisbehavior := 100, fShouldBan := True\<rparr>)"
  by (simp add: Misbehaving_def State_def ex_state_def ex_peer_def ex_args_def GetArg_def
      CNodeState_new_def)

text \<open>
  C4. For a registered peer and a positive score, \<^verbatim>\<open>Misbehaving\<close> adds the score to the peer's
  misbehaviour counter and changes nothing else except the ban flag. The flag is set by this
  call if and only if the call crosses the threshold (new total at least \<^verbatim>\<open>banscore\<close>,
  previous total below it), so that afterwards it holds exactly if it held before or the
  call crossed. Reaching the threshold exactly sets the flag; a call that stays below the
  threshold and a call that starts at or above it leave the flag as it was. Here
  \<^verbatim>\<open>banscore\<close> is the \<^verbatim>\<open>int\<close> that the function compares with, the configured \<^verbatim>\<open>int64_t\<close>
  narrowed to 32 bits; it is the configured value itself whenever that value fits an
  \<^verbatim>\<open>int\<close>.
\<close>
theorem Misbehaving_threshold:
  assumes "State s pnode = Some st" and "0 < howmuch"
  shows "let configured = GetArg (arg_banscore gArgs) DEFAULT_BANSCORE_THRESHOLD;
             banscore = sint (ucast configured :: 32 word)
         in \<exists>st'.
      Misbehaving gArgs pnode howmuch reason s = s\<lparr>mapNodeState := fmupd pnode st' (mapNodeState s)\<rparr>
    \<and> st' = st\<lparr>nMisbehavior := nMisbehavior st + howmuch,
                fShouldBan := (fShouldBan st \<or>
                   (nMisbehavior st + howmuch \<ge> banscore \<and> nMisbehavior st < banscore))\<rparr>
    \<and> (nMisbehavior st + howmuch = banscore \<longrightarrow> fShouldBan st')
    \<and> (nMisbehavior st + howmuch < banscore \<longrightarrow> fShouldBan st' = fShouldBan st)
    \<and> (banscore \<le> nMisbehavior st \<longrightarrow> fShouldBan st' = fShouldBan st)
    \<and> (- (2 ^ 31) \<le> sint configured \<and> sint configured < 2 ^ 31 \<longrightarrow> banscore = sint configured)"
  using assms narrow_in_range[of "GetArg (arg_banscore gArgs) DEFAULT_BANSCORE_THRESHOLD"]
  by (auto simp: Misbehaving_def Let_def)

text \<open>
  At a peer with score 99 and the default threshold of 100, a score of 1 reaches the
  threshold exactly and sets the flag.
\<close>
theorem Misbehaving_threshold_witness:
  "State ex_state 7 = Some ex_peer \<and> (0::int) < 1 \<and> \<not> fShouldBan ex_peer \<and>
   nMisbehavior ex_peer + 1
     = sint (ucast (GetArg (arg_banscore ex_args) DEFAULT_BANSCORE_THRESHOLD) :: 32 word) \<and>
   sint (GetArg (arg_banscore ex_args) DEFAULT_BANSCORE_THRESHOLD) = 100 \<and>
   State (Misbehaving ex_args 7 1 ''multiple-version'' ex_state) 7
     = Some (ex_peer\<lparr>nMisbehavior := 100, fShouldBan := True\<rparr>)"
proof -
  have h: "State ex_state 7 = Some ex_peer"
    by (simp add: State_def ex_state_def)
  have c: "GetArg (arg_banscore ex_args) DEFAULT_BANSCORE_THRESHOLD = 100"
    by (simp add: ex_args_def GetArg_def DEFAULT_BANSCORE_THRESHOLD_def)
  have t: "nMisbehavior ex_peer + 1 = sint (ucast (100 :: 64 word) :: 32 word)"
    by (simp add: ex_peer_def)
  from Misbehaving_threshold[OF h, of 1 ex_args "''multiple-version''"] t c
  obtain st' where
    "Misbehaving ex_args 7 1 ''multiple-version'' ex_state
       = ex_state\<lparr>mapNodeState := fmupd 7 st' (mapNodeState ex_state)\<rparr>"
    "st' = ex_peer\<lparr>nMisbehavior := nMisbehavior ex_peer + 1, fShouldBan := True\<rparr>"
    by (auto simp: Let_def)
  then show ?thesis using h t c
    by (simp add: State_def ex_peer_def CNodeState_new_def)
qed

subsection \<open>Transactions we already have\<close>

text \<open>
  C5. For a transaction inventory (with the filter allocated and a tip on the active chain),
  \<^verbatim>\<open>AlreadyHave\<close> resets the recent-rejects filter and records the hash of the tip exactly
  when that hash differs from the recorded one, and leaves the globals as they are
  otherwise. It then returns true if and only if the hash is in the filter (as the reset
  has left it), in the mempool, in the orphan pool, or the coin cache has a coin at output
  0 or at output 1 of that hash.
\<close>
theorem AlreadyHave_tx:
  assumes "inv_type cinv = MSG_TX" and "recentRejects s = Some rr"
    and "Tip_GetBlockHash chain = Some tip"
  shows "AlreadyHave chain cinv s =
     Inr ((inv_hash cinv \<in> (if tip \<noteq> hashRecentRejectsChainTip s then {} else rr)
           \<or> mempool_exists chain (inv_hash cinv)
           \<or> inv_hash cinv |\<in>| fmdom (mapOrphanTransactions s)
           \<or> HaveCoinInCache chain \<lparr>op_hash = inv_hash cinv, op_n = 0\<rparr>
           \<or> HaveCoinInCache chain \<lparr>op_hash = inv_hash cinv, op_n = 1\<rparr>),
          (if tip \<noteq> hashRecentRejectsChainTip s
           then s\<lparr>hashRecentRejectsChainTip := tip, recentRejects := Some {}\<rparr>
           else s))"
  using assms by (simp add: AlreadyHave_def)

text \<open>
  Transaction 42 is in the filter, which was filled at tip 1. At tip 2 the query resets the
  filter and answers no; at tip 1 it answers yes and changes nothing.
\<close>
theorem AlreadyHave_tx_witness:
  "inv_type \<lparr>inv_type = MSG_TX, inv_hash = 42\<rparr> = MSG_TX \<and> recentRejects ex_rejected = Some {42} \<and>
   Tip_GetBlockHash ex_chain = Some 2 \<and> hashRecentRejectsChainTip ex_rejected = 1 \<and>
   AlreadyHave ex_chain \<lparr>inv_type = MSG_TX, inv_hash = 42\<rparr> ex_rejected
     = Inr (False, ex_rejected\<lparr>hashRecentRejectsChainTip := 2, recentRejects := Some {}\<rparr>) \<and>
   AlreadyHave (ex_chain\<lparr>Tip_GetBlockHash := Some 1\<rparr>) \<lparr>inv_type = MSG_TX, inv_hash = 42\<rparr> ex_rejected
     = Inr (True, ex_rejected)"
proof -
  have a: "inv_type \<lparr>inv_type = MSG_TX, inv_hash = 42\<rparr> = MSG_TX" by simp
  have b: "recentRejects ex_rejected = Some {42}" by (simp add: ex_rejected_def)
  have c: "Tip_GetBlockHash ex_chain = Some 2" by (simp add: ex_chain_def)
  have c': "Tip_GetBlockHash (ex_chain\<lparr>Tip_GetBlockHash := Some 1\<rparr>) = Some 1" by simp
  have d: "hashRecentRejectsChainTip ex_rejected = 1" by (simp add: ex_rejected_def)
  show ?thesis
    using AlreadyHave_tx[OF a b c] AlreadyHave_tx[OF a b c'] a b c d
    by (simp add: ex_chain_def ex_rejected_def ex_state_def net_state_init_def)
qed

subsection \<open>Adding an orphan\<close>

lemma AddOrphanTx_fold_lookup:
  "fmlookup (fold (\<lambda>txin m. fmupd (op_hash (prevout txin))
                     (insert h (case fmlookup m (op_hash (prevout txin)) of None \<Rightarrow> {} | Some S \<Rightarrow> S)) m)
               ins byPrev) p
   = (if p \<in> set (map (\<lambda>txin. op_hash (prevout txin)) ins)
      then Some (insert h (case fmlookup byPrev p of None \<Rightarrow> {} | Some S \<Rightarrow> S))
      else fmlookup byPrev p)"
  by (induction ins arbitrary: byPrev) (auto simp: Let_def)

text \<open>
  C6. \<^verbatim>\<open>AddOrphanTx\<close> returns false and leaves the state (the orphan pool with it) as it is
  when the hash of the transaction is already in the pool or the serialized size exceeds
  5000. Otherwise it returns true, the pool maps the hash to the transaction and the peer
  (its other entries are unchanged), the reverse index of the previous hash of every input
  has gained the hash (starting from the empty set for a previous hash that had no entry),
  the reverse index is unchanged at every other key, and nothing else changes.
\<close>
theorem AddOrphanTx_result:
  "(GetHash txn |\<in>| fmdom (mapOrphanTransactions s) \<or> GetSerializeSize txn > 5000
      \<longrightarrow> AddOrphanTx txn peer s = (False, s))
   \<and> (\<not> (GetHash txn |\<in>| fmdom (mapOrphanTransactions s) \<or> GetSerializeSize txn > 5000)
      \<longrightarrow> (\<exists>s'. AddOrphanTx txn peer s = (True, s')
            \<and> mapOrphanTransactions s'
                = fmupd (GetHash txn) \<lparr>otx_tx = txn, otx_fromPeer = peer\<rparr> (mapOrphanTransactions s)
            \<and> (\<forall>p. fmlookup (mapOrphanTransactionsByPrev s') p
                   = (if p \<in> set (map (\<lambda>txin. op_hash (prevout txin)) (vin txn))
                      then Some (insert (GetHash txn)
                             (case fmlookup (mapOrphanTransactionsByPrev s) p of
                                None \<Rightarrow> {} | Some S \<Rightarrow> S))
                      else fmlookup (mapOrphanTransactionsByPrev s) p))
            \<and> s'\<lparr>mapOrphanTransactions := mapOrphanTransactions s,
                  mapOrphanTransactionsByPrev := mapOrphanTransactionsByPrev s\<rparr> = s))"
  by (auto simp: AddOrphanTx_def Let_def AddOrphanTx_fold_lookup)

text \<open>
  A transaction of 250 bytes with inputs spending 10 and 11 is added; adding it again, and
  adding it with a size of 5001, is refused.
\<close>
theorem AddOrphanTx_result_witness:
  "GetHash ex_tx |\<notin>| fmdom (mapOrphanTransactions ex_state) \<and> GetSerializeSize ex_tx \<le> 5000 \<and>
   fst (AddOrphanTx ex_tx 7 ex_state) \<and>
   fmlookup (mapOrphanTransactions (snd (AddOrphanTx ex_tx 7 ex_state))) 42
     = Some \<lparr>otx_tx = ex_tx, otx_fromPeer = 7\<rparr> \<and>
   fmlookup (mapOrphanTransactionsByPrev (snd (AddOrphanTx ex_tx 7 ex_state))) 10 = Some {42} \<and>
   fmlookup (mapOrphanTransactionsByPrev (snd (AddOrphanTx ex_tx 7 ex_state))) 11 = Some {42} \<and>
   fmlookup (mapOrphanTransactionsByPrev (snd (AddOrphanTx ex_tx 7 ex_state))) 12 = None \<and>
   AddOrphanTx ex_tx 8 (snd (AddOrphanTx ex_tx 7 ex_state)) = (False, snd (AddOrphanTx ex_tx 7 ex_state)) \<and>
   AddOrphanTx (ex_tx\<lparr>GetSerializeSize := 5001\<rparr>) 7 ex_state = (False, ex_state)"
proof -
  have a: "GetHash ex_tx |\<notin>| fmdom (mapOrphanTransactions ex_state)"
    by (simp add: ex_state_def net_state_init_def)
  have b: "GetSerializeSize ex_tx \<le> 5000" "GetHash ex_tx = 42"
    by (simp_all add: ex_tx_def)
  have c: "vin ex_tx = [\<lparr>prevout = \<lparr>op_hash = 10, op_n = 0\<rparr>\<rparr>, \<lparr>prevout = \<lparr>op_hash = 11, op_n = 3\<rparr>\<rparr>]"
    by (simp add: ex_tx_def)
  have d: "mapOrphanTransactionsByPrev ex_state = fmempty"
    by (simp add: ex_state_def net_state_init_def)
  have e: "GetHash ex_tx |\<in>| fmdom (mapOrphanTransactions (snd (AddOrphanTx ex_tx 7 ex_state)))"
    using AddOrphanTx_result[of ex_tx ex_state 7] a b by auto
  have f: "(5001 :: 32 word) > 5000" by simp
  show ?thesis
    using AddOrphanTx_result[of ex_tx ex_state 7]
      AddOrphanTx_result[of ex_tx "snd (AddOrphanTx ex_tx 7 ex_state)" 8]
      AddOrphanTx_result[of "ex_tx\<lparr>GetSerializeSize := 5001\<rparr>" ex_state 7]
      a b c d e f
    by (auto simp: not_less)
qed

subsection \<open>Evicting orphans down to a cap\<close>

lemma not_indexed_fmdrop:
  "not_indexed byPrev p h' \<Longrightarrow> not_indexed (fmdrop q byPrev) p h'"
  by (auto simp: not_indexed_def split: option.splits)

lemma not_indexed_fmupd_less:
  "not_indexed byPrev p h' \<Longrightarrow> fmlookup byPrev q = Some S \<Longrightarrow>
   not_indexed (fmupd q (S - {h}) byPrev) p h'"
  by (auto simp: not_indexed_def split: option.splits)

lemma EraseOrphanTx_vin_keeps_not_indexed:
  "not_indexed byPrev p h' \<Longrightarrow> not_indexed (EraseOrphanTx_vin h ins byPrev) p h'"
  by (induction ins arbitrary: byPrev)
     (auto simp: Let_def not_indexed_fmdrop not_indexed_fmupd_less split: option.splits)

lemma EraseOrphanTx_vin_removes:
  "txin \<in> set ins \<Longrightarrow> not_indexed (EraseOrphanTx_vin h ins byPrev) (op_hash (prevout txin)) h"
proof (induction ins arbitrary: byPrev)
  case Nil
  then show ?case by simp
next
  case (Cons a ins)
  show ?case
  proof (cases "txin \<in> set ins")
    case True
    then show ?thesis using Cons.IH by (simp add: Let_def split: option.splits)
  next
    case False
    with Cons.prems have eq: "a = txin" by simp
    define q where "q = op_hash (prevout txin)"
    show ?thesis
    proof (cases "fmlookup byPrev q")
      case None
      then have "not_indexed byPrev q h" by (simp add: not_indexed_def)
      then show ?thesis
        using None by (simp add: eq q_def[symmetric] EraseOrphanTx_vin_keeps_not_indexed)
    next
      case (Some S)
      have "not_indexed (if S - {h} = {} then fmdrop q byPrev else fmupd q (S - {h}) byPrev) q h"
        by (simp add: not_indexed_def)
      then show ?thesis
        using Some by (simp add: eq q_def[symmetric] Let_def EraseOrphanTx_vin_keeps_not_indexed)
    qed
  qed
qed

lemma EraseOrphanTx_present:
  assumes "fmlookup (mapOrphanTransactions s) k = Some orphan"
  shows "EraseOrphanTx k s =
           s\<lparr>mapOrphanTransactionsByPrev :=
                EraseOrphanTx_vin k (vin (otx_tx orphan)) (mapOrphanTransactionsByPrev s),
             mapOrphanTransactions := fmdrop k (mapOrphanTransactions s)\<rparr>"
  using assms by (simp add: EraseOrphanTx_def)

lemma LimitOrphanTxSize_loop_correct:
  "\<exists>nEvicted' s'.
      LimitOrphanTxSize_loop GetRandHash i nMaxOrphans nEvicted s = Inr (nEvicted', s')
    \<and> orphan_count s' \<le> unat nMaxOrphans
    \<and> orphan_count s' \<le> orphan_count s
    \<and> nEvicted' = nEvicted + of_nat (orphan_count s - orphan_count s')
    \<and> (\<forall>k orphan. fmlookup (mapOrphanTransactions s') k = Some orphan
           \<longrightarrow> fmlookup (mapOrphanTransactions s) k = Some orphan)
    \<and> (\<forall>h orphan txin. fmlookup (mapOrphanTransactions s) h = Some orphan
           \<and> fmlookup (mapOrphanTransactions s') h = None \<and> txin \<in> set (vin (otx_tx orphan))
           \<longrightarrow> not_indexed (mapOrphanTransactionsByPrev s') (op_hash (prevout txin)) h)
    \<and> (\<forall>p h. not_indexed (mapOrphanTransactionsByPrev s) p h
           \<longrightarrow> not_indexed (mapOrphanTransactionsByPrev s') p h)
    \<and> s'\<lparr>mapOrphanTransactions := mapOrphanTransactions s,
          mapOrphanTransactionsByPrev := mapOrphanTransactionsByPrev s\<rparr> = s"
proof (induction GetRandHash i nMaxOrphans nEvicted s rule: LimitOrphanTxSize_loop.induct)
  case (1 GetRandHash i nMaxOrphans nEvicted s)
  show ?case
  proof (cases "orphan_count s > unat nMaxOrphans")
    case False
    then show ?thesis
      by (subst LimitOrphanTxSize_loop.simps) (auto simp: orphan_count_def)
  next
    case True
    define it where "it = lower_bound (mapOrphanTransactions s) (GetRandHash i)"
    define ita where "ita = (if it = None then map_begin (mapOrphanTransactions s) else it)"
    have nonempty: "map_keys (mapOrphanTransactions s) \<noteq> []"
    proof
      assume "map_keys (mapOrphanTransactions s) = []"
      then have "fset (fmdom (mapOrphanTransactions s)) = {}"
        using map_keys_set[of "mapOrphanTransactions s"] by simp
      then have "fmdom (mapOrphanTransactions s) = {||}"
        by (metis bot_fset.rep_eq fset_inject)
      with True show False by (simp add: orphan_count_def fcard_fempty)
    qed
    then obtain k where k: "ita = Some k"
      by (cases "map_keys (mapOrphanTransactions s)"; cases it)
         (auto simp: ita_def map_begin_def)
    have kdom: "k |\<in>| fmdom (mapOrphanTransactions s)"
      using k lower_bound_dom map_begin_dom unfolding ita_def it_def by (metis)
    then obtain ok where ok: "fmlookup (mapOrphanTransactions s) k = Some ok"
      by (auto simp: fmlookup_dom_iff)
    define s1 where "s1 = EraseOrphanTx k s"
    have s1: "s1 = s\<lparr>mapOrphanTransactionsByPrev :=
                EraseOrphanTx_vin k (vin (otx_tx ok)) (mapOrphanTransactionsByPrev s),
             mapOrphanTransactions := fmdrop k (mapOrphanTransactions s)\<rparr>"
      unfolding s1_def by (rule EraseOrphanTx_present[OF ok])
    have cnt: "Suc (orphan_count s1) = orphan_count s"
      unfolding s1_def orphan_count_def by (rule EraseOrphanTx_fcard[OF kdom])
    have unfold: "LimitOrphanTxSize_loop GetRandHash i nMaxOrphans nEvicted s
        = LimitOrphanTxSize_loop GetRandHash (Suc i) nMaxOrphans (nEvicted + 1) s1"
      using True k unfolding ita_def
      by (subst LimitOrphanTxSize_loop.simps)
         (auto simp: orphan_count_def Let_def it_def[symmetric] s1_def)
    have gt: "unat nMaxOrphans < fcard (fmdom (mapOrphanTransactions s))"
      using True by (simp add: orphan_count_def)
    have k': "(if lower_bound (mapOrphanTransactions s) (GetRandHash i) = None
               then map_begin (mapOrphanTransactions s)
               else lower_bound (mapOrphanTransactions s) (GetRandHash i)) = Some k"
      using k unfolding ita_def it_def .
    from "1.IH"[OF gt refl refl refl k']
    have ih: "\<exists>nEvicted' s'.
      LimitOrphanTxSize_loop GetRandHash (Suc i) nMaxOrphans (nEvicted + 1) s1 = Inr (nEvicted', s')
    \<and> orphan_count s' \<le> unat nMaxOrphans
    \<and> orphan_count s' \<le> orphan_count s1
    \<and> nEvicted' = nEvicted + 1 + of_nat (orphan_count s1 - orphan_count s')
    \<and> (\<forall>k orphan. fmlookup (mapOrphanTransactions s') k = Some orphan
           \<longrightarrow> fmlookup (mapOrphanTransactions s1) k = Some orphan)
    \<and> (\<forall>h orphan txin. fmlookup (mapOrphanTransactions s1) h = Some orphan
           \<and> fmlookup (mapOrphanTransactions s') h = None \<and> txin \<in> set (vin (otx_tx orphan))
           \<longrightarrow> not_indexed (mapOrphanTransactionsByPrev s') (op_hash (prevout txin)) h)
    \<and> (\<forall>p h. not_indexed (mapOrphanTransactionsByPrev s1) p h
           \<longrightarrow> not_indexed (mapOrphanTransactionsByPrev s') p h)
    \<and> s'\<lparr>mapOrphanTransactions := mapOrphanTransactions s1,
          mapOrphanTransactionsByPrev := mapOrphanTransactionsByPrev s1\<rparr> = s1"
      unfolding s1_def by simp
    then obtain nEvicted' s' where
      r: "LimitOrphanTxSize_loop GetRandHash (Suc i) nMaxOrphans (nEvicted + 1) s1 = Inr (nEvicted', s')"
      and cap: "orphan_count s' \<le> unat nMaxOrphans"
      and le: "orphan_count s' \<le> orphan_count s1"
      and ev: "nEvicted' = nEvicted + 1 + of_nat (orphan_count s1 - orphan_count s')"
      and sub: "\<And>k orphan. fmlookup (mapOrphanTransactions s') k = Some orphan
           \<Longrightarrow> fmlookup (mapOrphanTransactions s1) k = Some orphan"
      and gone: "\<And>h orphan txin. fmlookup (mapOrphanTransactions s1) h = Some orphan
           \<Longrightarrow> fmlookup (mapOrphanTransactions s') h = None \<Longrightarrow> txin \<in> set (vin (otx_tx orphan))
           \<Longrightarrow> not_indexed (mapOrphanTransactionsByPrev s') (op_hash (prevout txin)) h"
      and keep: "\<And>p h. not_indexed (mapOrphanTransactionsByPrev s1) p h
           \<Longrightarrow> not_indexed (mapOrphanTransactionsByPrev s') p h"
      and frame: "s'\<lparr>mapOrphanTransactions := mapOrphanTransactions s1,
          mapOrphanTransactionsByPrev := mapOrphanTransactionsByPrev s1\<rparr> = s1"
      by blast
    have c1: "orphan_count s' \<le> orphan_count s" using le cnt by simp
    have c2: "nEvicted' = nEvicted + of_nat (orphan_count s - orphan_count s')"
    proof -
      have "orphan_count s - orphan_count s' = Suc (orphan_count s1 - orphan_count s')"
        using le cnt by simp
      then show ?thesis by (simp add: ev)
    qed
    have c3: "fmlookup (mapOrphanTransactions s) k' = Some orphan"
      if "fmlookup (mapOrphanTransactions s') k' = Some orphan" for k' orphan
      using sub[OF that] by (auto simp: s1 split: if_splits)
    have c4: "not_indexed (mapOrphanTransactionsByPrev s') (op_hash (prevout txin)) h"
      if a: "fmlookup (mapOrphanTransactions s) h = Some orphan"
        and b: "fmlookup (mapOrphanTransactions s') h = None"
        and c: "txin \<in> set (vin (otx_tx orphan))" for h orphan txin
    proof (cases "h = k")
      case True
      with a ok have "orphan = ok" by simp
      with c have "not_indexed (mapOrphanTransactionsByPrev s1) (op_hash (prevout txin)) k"
        by (simp add: s1 EraseOrphanTx_vin_removes)
      with True show ?thesis using keep by simp
    next
      case False
      with a have "fmlookup (mapOrphanTransactions s1) h = Some orphan"
        by (simp add: s1)
      then show ?thesis using gone b c by blast
    qed
    have c5: "not_indexed (mapOrphanTransactionsByPrev s') p h"
      if "not_indexed (mapOrphanTransactionsByPrev s) p h" for p h
      using keep[of p h] that by (simp add: s1 EraseOrphanTx_vin_keeps_not_indexed)
    have c6: "s'\<lparr>mapOrphanTransactions := mapOrphanTransactions s,
          mapOrphanTransactionsByPrev := mapOrphanTransactionsByPrev s\<rparr> = s"
    proof -
      have "s'\<lparr>mapOrphanTransactions := mapOrphanTransactions s,
          mapOrphanTransactionsByPrev := mapOrphanTransactionsByPrev s\<rparr>
        = (s'\<lparr>mapOrphanTransactions := mapOrphanTransactions s1,
          mapOrphanTransactionsByPrev := mapOrphanTransactionsByPrev s1\<rparr>)
            \<lparr>mapOrphanTransactions := mapOrphanTransactions s,
          mapOrphanTransactionsByPrev := mapOrphanTransactionsByPrev s\<rparr>"
        by simp
      also have "\<dots> = s" unfolding frame by (simp add: s1)
      finally show ?thesis .
    qed
    show ?thesis
      unfolding unfold using r cap c1 c2 c3 c4 c5 c6 by blast
  qed
qed


lemma ex_keys: "map_keys (mapOrphanTransactions ex_orphans) = [42, 50]"
  by (simp add: map_keys_def ex_orphans_def sorted_list_of_fset.rep_eq)

lemma ex_count: "orphan_count ex_orphans = 2"
  by (simp add: orphan_count_def ex_orphans_def fcard_finsert_if)

lemma ex_limit:
  "LimitOrphanTxSize (\<lambda>i. 45) 1 ex_orphans =
     Inr (1, ex_state\<lparr>mapOrphanTransactions := fmupd 42 \<lparr>otx_tx = ex_tx, otx_fromPeer = 7\<rparr> fmempty,
                      mapOrphanTransactionsByPrev := fmupd 10 {42} (fmupd 11 {42} fmempty)\<rparr>)"
  apply (simp add: LimitOrphanTxSize_def)
  apply (subst LimitOrphanTxSize_loop.simps)
  apply (simp add: ex_count[unfolded orphan_count_def] lower_bound_def ex_keys)
  apply (subst LimitOrphanTxSize_loop.simps)
  apply (simp add: EraseOrphanTx_def ex_orphans_def ex_tx2_def fmdrop_fmupd fcard_finsert_if
      fcard_fempty insert_Diff_if Let_def)
  done


text \<open>
  C7. For every cap, every random source and every state, \<^verbatim>\<open>LimitOrphanTxSize\<close> returns (the
  loop ends and no iterator is followed past the end), and then
  \<^item> the pool has at most \<^verbatim>\<open>cap\<close> entries, all of them entries it had before;
  \<^item> the returned \<^verbatim>\<open>unsigned int\<close> is the number of orphans erased, as an \<^verbatim>\<open>unsigned int\<close>; it is
    that number itself whenever the pool held fewer than \<open>2\<^sup>3\<^sup>2\<close> orphans (the counter
    cannot hold more);
  \<^item> an orphan that has been erased is in no set of the reverse index under the previous
    hash of any of its inputs;
  \<^item> nothing but the two orphan maps changes.
\<close>
theorem LimitOrphanTxSize_evicts:
  "\<exists>nEvicted s'.
      LimitOrphanTxSize GetRandHash nMaxOrphans s = Inr (nEvicted, s')
    \<and> orphan_count s' \<le> unat nMaxOrphans
    \<and> orphan_count s' \<le> orphan_count s
    \<and> nEvicted = of_nat (orphan_count s - orphan_count s')
    \<and> (orphan_count s < 2 ^ 32 \<longrightarrow> unat nEvicted = orphan_count s - orphan_count s')
    \<and> (\<forall>k orphan. fmlookup (mapOrphanTransactions s') k = Some orphan
           \<longrightarrow> fmlookup (mapOrphanTransactions s) k = Some orphan)
    \<and> (\<forall>h orphan txin. fmlookup (mapOrphanTransactions s) h = Some orphan
           \<and> fmlookup (mapOrphanTransactions s') h = None \<and> txin \<in> set (vin (otx_tx orphan))
           \<longrightarrow> not_indexed (mapOrphanTransactionsByPrev s') (op_hash (prevout txin)) h)
    \<and> s'\<lparr>mapOrphanTransactions := mapOrphanTransactions s,
          mapOrphanTransactionsByPrev := mapOrphanTransactionsByPrev s\<rparr> = s"
proof -
  from LimitOrphanTxSize_loop_correct[of GetRandHash 0 nMaxOrphans 0 s]
  obtain nEvicted s' where
    r: "LimitOrphanTxSize_loop GetRandHash 0 nMaxOrphans 0 s = Inr (nEvicted, s')"
    and cap: "orphan_count s' \<le> unat nMaxOrphans"
    and le: "orphan_count s' \<le> orphan_count s"
    and ev: "nEvicted = 0 + of_nat (orphan_count s - orphan_count s')"
    and sub: "\<forall>k orphan. fmlookup (mapOrphanTransactions s') k = Some orphan
           \<longrightarrow> fmlookup (mapOrphanTransactions s) k = Some orphan"
    and gone: "\<forall>h orphan txin. fmlookup (mapOrphanTransactions s) h = Some orphan
           \<and> fmlookup (mapOrphanTransactions s') h = None \<and> txin \<in> set (vin (otx_tx orphan))
           \<longrightarrow> not_indexed (mapOrphanTransactionsByPrev s') (op_hash (prevout txin)) h"
    and frame: "s'\<lparr>mapOrphanTransactions := mapOrphanTransactions s,
          mapOrphanTransactionsByPrev := mapOrphanTransactionsByPrev s\<rparr> = s"
    by blast
  have exact: "unat nEvicted = orphan_count s - orphan_count s'" if "orphan_count s < 2 ^ 32"
  proof -
    have "orphan_count s - orphan_count s' < 2 ^ LENGTH(32)"
      using that by simp
    then show ?thesis
      unfolding ev by (simp add: unat_of_nat)
  qed
  show ?thesis
    unfolding LimitOrphanTxSize_def using r cap le ev sub gone frame exact by auto
qed

text \<open>
  Two orphans, 42 and 50, and a cap of 1; the random hash 45 selects orphan 50, which goes
  together with its entry under the previous hash 10.
\<close>
theorem LimitOrphanTxSize_evicts_witness:
  "orphan_count ex_orphans = 2 \<and> orphan_count ex_orphans < 2 ^ 32 \<and>
   LimitOrphanTxSize (\<lambda>i. 45) 1 ex_orphans =
     Inr (1, ex_state\<lparr>mapOrphanTransactions := fmupd 42 \<lparr>otx_tx = ex_tx, otx_fromPeer = 7\<rparr> fmempty,
                      mapOrphanTransactionsByPrev := fmupd 10 {42} (fmupd 11 {42} fmempty)\<rparr>) \<and>
   unat (fst (projr (LimitOrphanTxSize (\<lambda>i. 45) 1 ex_orphans)))
     = orphan_count ex_orphans - orphan_count (snd (projr (LimitOrphanTxSize (\<lambda>i. 45) 1 ex_orphans))) \<and>
   not_indexed (mapOrphanTransactionsByPrev (snd (projr (LimitOrphanTxSize (\<lambda>i. 45) 1 ex_orphans)))) 10 50"
proof -
  have a: "orphan_count ex_orphans < 2 ^ 32"
    by (simp add: ex_count)
  have b: "fmlookup (mapOrphanTransactions ex_orphans) 50 = Some \<lparr>otx_tx = ex_tx2, otx_fromPeer = 7\<rparr>"
    by (simp add: ex_orphans_def)
  have c: "\<lparr>prevout = \<lparr>op_hash = 10, op_n = 1\<rparr>\<rparr> \<in> set (vin (otx_tx \<lparr>otx_tx = ex_tx2, otx_fromPeer = 7\<rparr>))"
    by (simp add: ex_tx2_def)
  have d: "fmlookup (mapOrphanTransactions (snd (projr (LimitOrphanTxSize (\<lambda>i. 45) 1 ex_orphans)))) 50 = None"
    by (simp add: ex_limit)
  from LimitOrphanTxSize_evicts[of "\<lambda>i. 45" 1 ex_orphans] a b c d
  have "unat (fst (projr (LimitOrphanTxSize (\<lambda>i. 45) 1 ex_orphans)))
     = orphan_count ex_orphans - orphan_count (snd (projr (LimitOrphanTxSize (\<lambda>i. 45) 1 ex_orphans)))
   \<and> not_indexed (mapOrphanTransactionsByPrev (snd (projr (LimitOrphanTxSize (\<lambda>i. 45) 1 ex_orphans)))) 10 50"
    by fastforce
  then show ?thesis
    using a ex_count ex_limit by simp
qed

subsection \<open>Removing the last peer\<close>

lemma new_node_bound: "(a, x) \<in> set xs \<Longrightarrow> a < fold (\<lambda>x a. max (Suc (fst x)) a) xs b"
proof (induction xs arbitrary: b)
  case Nil
  then show ?case by simp
next
  case (Cons y ys)
  have mono: "b \<le> fold (\<lambda>x a. max (Suc (fst x)) a) zs b" for zs b
  proof (induction zs arbitrary: b)
    case Nil
    show ?case by simp
  next
    case (Cons z zs)
    have "b \<le> max (Suc (fst z)) b" by simp
    also have "\<dots> \<le> fold (\<lambda>x a. max (Suc (fst x)) a) zs (max (Suc (fst z)) b)"
      by (rule Cons.IH)
    finally show ?case by simp
  qed
  show ?case
  proof (cases "(a, x) \<in> set ys")
    case True
    then show ?thesis using Cons.IH by simp
  next
    case False
    with Cons.prems have "y = (a, x)" by simp
    then show ?thesis
      using mono[of "max (Suc a) b" ys] by simp
  qed
qed

lemma new_node_fresh: "new_node xs \<notin> fst ` set xs"
  unfolding new_node_def using new_node_bound[of _ _ xs 0] by fastforce

lemma list_erase_set:
  "distinct (map fst xs) \<Longrightarrow> set (list_erase it xs) = {x \<in> set xs. fst x \<noteq> it}"
  by (induction xs) (auto simp: rev_image_eqI)

lemma list_erase_distinct:
  "distinct (map fst xs) \<Longrightarrow> distinct (map fst (list_erase it xs))"
  by (induction xs) (auto simp: list_erase_set)

lemma list_erase_map_of:
  "distinct (map fst xs) \<Longrightarrow>
   map_of (list_erase it xs) it' = (if it' = it then None else map_of xs it')"
  by (induction xs) (auto simp: map_of_eq_None_iff rev_image_eqI)

lemma list_erase_filter_length:
  "distinct (map fst xs) \<Longrightarrow> map_of xs it = Some e \<Longrightarrow>
   int (length (filter (\<lambda>x. P (snd x)) (list_erase it xs)))
     = int (length (filter (\<lambda>x. P (snd x)) xs)) - of_bool (P e)"
  by (induction xs) (auto split: if_splits)

lemma MarkBlockAsReceived_cases:
  assumes "MarkBlockAsReceived now h s = Inr (r, s')"
  obtains (absent) "fmlookup (mapBlocksInFlight s) h = None" "r = False" "s' = s"
  | (present) nodeid it state entry state3 where
      "fmlookup (mapBlocksInFlight s) h = Some (nodeid, it)"
      "fmlookup (mapNodeState s) nodeid = Some state"
      "map_of (vBlocksInFlight state) it = Some entry"
      "r = True"
      "vBlocksInFlight state3 = list_erase it (vBlocksInFlight state)"
      "nBlocksInFlightValidHeaders state3
         = nBlocksInFlightValidHeaders state - of_bool (qb_fValidatedHeaders entry)"
      "fPreferredDownload state3 = fPreferredDownload state"
      "mapNodeState s' = fmupd nodeid state3 (mapNodeState s)"
      "mapBlocksInFlight s' = fmdrop h (mapBlocksInFlight s)"
      "nPreferredDownload s' = nPreferredDownload s"
      "mapOrphanTransactions s' = mapOrphanTransactions s"
      "mapOrphanTransactionsByPrev s' = mapOrphanTransactionsByPrev s"
proof (cases "fmlookup (mapBlocksInFlight s) h")
  case None
  with assms show ?thesis by (auto simp: MarkBlockAsReceived_def intro: absent)
next
  case (Some a)
  obtain nodeid it where a: "a = (nodeid, it)" by (cases a)
  from assms Some a obtain state entry where
    st: "fmlookup (mapNodeState s) nodeid = Some state"
    and en: "map_of (vBlocksInFlight state) it = Some entry"
    by (auto simp: MarkBlockAsReceived_def State_def split: option.splits)
  define state3 where "state3 = the (fmlookup (mapNodeState s') nodeid)"
  from assms Some a st en have
    p: "r = True"
      "vBlocksInFlight state3 = list_erase it (vBlocksInFlight state)"
      "nBlocksInFlightValidHeaders state3
         = nBlocksInFlightValidHeaders state - of_bool (qb_fValidatedHeaders entry)"
      "fPreferredDownload state3 = fPreferredDownload state"
      "mapNodeState s' = fmupd nodeid state3 (mapNodeState s)"
      "mapBlocksInFlight s' = fmdrop h (mapBlocksInFlight s)"
      "nPreferredDownload s' = nPreferredDownload s"
      "mapOrphanTransactions s' = mapOrphanTransactions s"
      "mapOrphanTransactionsByPrev s' = mapOrphanTransactionsByPrev s"
    unfolding state3_def
    by (auto simp: MarkBlockAsReceived_def State_def Let_def split: if_splits)
  show ?thesis
    using present[OF Some[unfolded a] st en p] .
qed

lemma MarkBlockAsReceived_inflight_inv:
  assumes inv: "inflight_inv s" and run: "MarkBlockAsReceived now h s = Inr (r, s')"
  shows "inflight_inv s'"
  using run
proof (cases rule: MarkBlockAsReceived_cases)
  case absent
  with inv show ?thesis by simp
next
  case (present nodeid it state entry state3)
  note idx = present(1) and st = present(2) and en = present(3) and l3 = present(5)
    and n3 = present(6) and reg' = present(8) and idx' = present(9)
  from inv have
    a: "\<And>h nodeid it. fmlookup (mapBlocksInFlight s) h = Some (nodeid, it) \<Longrightarrow>
        (\<exists>st qb. fmlookup (mapNodeState s) nodeid = Some st
             \<and> map_of (vBlocksInFlight st) it = Some qb \<and> qb_hash qb = h)"
    and b: "\<And>nodeid st it qb. fmlookup (mapNodeState s) nodeid = Some st
           \<Longrightarrow> (it, qb) \<in> set (vBlocksInFlight st) \<Longrightarrow>
        fmlookup (mapBlocksInFlight s) (qb_hash qb) = Some (nodeid, it)"
    and c: "\<And>nodeid st. fmlookup (mapNodeState s) nodeid = Some st \<Longrightarrow>
        distinct (map fst (vBlocksInFlight st))"
    and d: "\<And>nodeid st. fmlookup (mapNodeState s) nodeid = Some st \<Longrightarrow>
        nBlocksInFlightValidHeaders st
            = int (length (filter (\<lambda>x. qb_fValidatedHeaders (snd x)) (vBlocksInFlight st)))"
    unfolding inflight_inv_def by blast+
  have dist: "distinct (map fst (vBlocksInFlight state))" using c[OF st] .
  have eh: "qb_hash entry = h" using a[OF idx] st en by auto
  have a': "\<exists>st qb. fmlookup (mapNodeState s') q = Some st
             \<and> map_of (vBlocksInFlight st) it' = Some qb \<and> qb_hash qb = h'"
    if h': "fmlookup (mapBlocksInFlight s') h' = Some (q, it')" for h' q it'
  proof -
    from h' have ne: "h' \<noteq> h" and old: "fmlookup (mapBlocksInFlight s) h' = Some (q, it')"
      by (auto simp: idx' split: if_splits)
    from a[OF old] obtain st0 qb where
      q: "fmlookup (mapNodeState s) q = Some st0" "map_of (vBlocksInFlight st0) it' = Some qb" "qb_hash qb = h'"
      by blast
    show ?thesis
    proof (cases "q = nodeid")
      case False
      with q show ?thesis by (auto simp: reg')
    next
      case True
      with q st have st0: "st0 = state" by simp
      have "it' \<noteq> it" using q en eh ne st0 by auto
      then have "map_of (vBlocksInFlight state3) it' = Some qb"
        using q(2) st0 by (simp add: l3 list_erase_map_of[OF dist])
      with True q(3) show ?thesis by (auto simp: reg')
    qed
  qed
  have b': "fmlookup (mapBlocksInFlight s') (qb_hash qb) = Some (q, it')"
    if q: "fmlookup (mapNodeState s') q = Some st1" and el: "(it', qb) \<in> set (vBlocksInFlight st1)"
    for q st1 it' qb
  proof (cases "q = nodeid")
    case False
    with q have q0: "fmlookup (mapNodeState s) q = Some st1" by (simp add: reg')
    have old: "fmlookup (mapBlocksInFlight s) (qb_hash qb) = Some (q, it')" using b[OF q0 el] .
    with idx False have "qb_hash qb \<noteq> h" by auto
    with old show ?thesis by (simp add: idx')
  next
    case True
    with q have st1: "st1 = state3" by (simp add: reg')
    from el have el0: "(it', qb) \<in> set (vBlocksInFlight state)" and ne: "it' \<noteq> it"
      by (auto simp: st1 l3 list_erase_set[OF dist])
    have old: "fmlookup (mapBlocksInFlight s) (qb_hash qb) = Some (nodeid, it')" using b[OF st el0] .
    with idx ne have "qb_hash qb \<noteq> h" by auto
    with old True show ?thesis by (simp add: idx')
  qed
  have cd': "distinct (map fst (vBlocksInFlight st1))
        \<and> nBlocksInFlightValidHeaders st1
            = int (length (filter (\<lambda>x. qb_fValidatedHeaders (snd x)) (vBlocksInFlight st1)))"
    if q: "fmlookup (mapNodeState s') q = Some st1" for q st1
  proof (cases "q = nodeid")
    case False
    with q have "fmlookup (mapNodeState s) q = Some st1" by (simp add: reg')
    then show ?thesis using c d by blast
  next
    case True
    with q have st1: "st1 = state3" by (simp add: reg')
    show ?thesis
      unfolding st1 l3 n3
      using list_erase_distinct[OF dist] list_erase_filter_length[OF dist en] d[OF st]
      by simp
  qed
  show ?thesis unfolding inflight_inv_def using a' b' cd' by blast
qed

lemma MarkBlockAsInFlight_cases:
  assumes "MarkBlockAsInFlight now1 now2 nodeid h pindex s = Inr s'"
  obtains r s1 state state2 where
      "MarkBlockAsReceived now1 h s = Inr (r, s1)"
      "fmlookup (mapNodeState s1) nodeid = Some state"
      "vBlocksInFlight state2 = vBlocksInFlight state @
          [(new_node (vBlocksInFlight state),
            \<lparr>qb_hash = h, qb_pindex = pindex, qb_fValidatedHeaders = (pindex \<noteq> None)\<rparr>)]"
      "nBlocksInFlightValidHeaders state2
         = nBlocksInFlightValidHeaders state + of_bool (pindex \<noteq> None)"
      "fPreferredDownload state2 = fPreferredDownload state"
      "mapNodeState s' = fmupd nodeid state2 (mapNodeState s1)"
      "mapBlocksInFlight s' = fmupd h (nodeid, new_node (vBlocksInFlight state)) (mapBlocksInFlight s1)"
      "nPreferredDownload s' = nPreferredDownload s1"
      "mapOrphanTransactions s' = mapOrphanTransactions s1"
      "mapOrphanTransactionsByPrev s' = mapOrphanTransactionsByPrev s1"
proof -
  from assms obtain r s1 state where
    rc: "MarkBlockAsReceived now1 h s = Inr (r, s1)"
    and st: "fmlookup (mapNodeState s1) nodeid = Some state"
    by (auto simp: MarkBlockAsInFlight_def State_def split: option.splits sum.splits)
  define state2 where "state2 = the (fmlookup (mapNodeState s') nodeid)"
  from assms rc st have
    p: "vBlocksInFlight state2 = vBlocksInFlight state @
          [(new_node (vBlocksInFlight state),
            \<lparr>qb_hash = h, qb_pindex = pindex, qb_fValidatedHeaders = (pindex \<noteq> None)\<rparr>)]"
      "nBlocksInFlightValidHeaders state2
         = nBlocksInFlightValidHeaders state + of_bool (pindex \<noteq> None)"
      "fPreferredDownload state2 = fPreferredDownload state"
      "mapNodeState s' = fmupd nodeid state2 (mapNodeState s1)"
      "mapBlocksInFlight s' = fmupd h (nodeid, new_node (vBlocksInFlight state)) (mapBlocksInFlight s1)"
      "nPreferredDownload s' = nPreferredDownload s1"
      "mapOrphanTransactions s' = mapOrphanTransactions s1"
      "mapOrphanTransactionsByPrev s' = mapOrphanTransactionsByPrev s1"
    unfolding state2_def
    by (auto simp: MarkBlockAsInFlight_def State_def Let_def split: option.splits if_splits)
  show ?thesis using that[OF rc st p] .
qed

lemma MarkBlockAsInFlight_inflight_inv:
  assumes inv: "inflight_inv s" and run: "MarkBlockAsInFlight now1 now2 nodeid h pindex s = Inr s'"
  shows "inflight_inv s'"
  using run
proof (cases rule: MarkBlockAsInFlight_cases)
  case (1 r s1 state state2)
  note rc = 1(1) and st = 1(2) and l2 = 1(3) and n2 = 1(4) and reg' = 1(6) and idx' = 1(7)
  define it where "it = new_node (vBlocksInFlight state)"
  define newentry where
    "newentry = \<lparr>qb_hash = h, qb_pindex = pindex, qb_fValidatedHeaders = (pindex \<noteq> None)\<rparr>"
  have inv1: "inflight_inv s1" using MarkBlockAsReceived_inflight_inv[OF inv rc] .
  have hfree: "fmlookup (mapBlocksInFlight s1) h = None"
    using rc by (cases rule: MarkBlockAsReceived_cases) auto
  from inv1 have
    a: "\<And>h nodeid it. fmlookup (mapBlocksInFlight s1) h = Some (nodeid, it) \<Longrightarrow>
        (\<exists>st qb. fmlookup (mapNodeState s1) nodeid = Some st
             \<and> map_of (vBlocksInFlight st) it = Some qb \<and> qb_hash qb = h)"
    and b: "\<And>nodeid st it qb. fmlookup (mapNodeState s1) nodeid = Some st
           \<Longrightarrow> (it, qb) \<in> set (vBlocksInFlight st) \<Longrightarrow>
        fmlookup (mapBlocksInFlight s1) (qb_hash qb) = Some (nodeid, it)"
    and c: "\<And>nodeid st. fmlookup (mapNodeState s1) nodeid = Some st \<Longrightarrow>
        distinct (map fst (vBlocksInFlight st))"
    and d: "\<And>nodeid st. fmlookup (mapNodeState s1) nodeid = Some st \<Longrightarrow>
        nBlocksInFlightValidHeaders st
            = int (length (filter (\<lambda>x. qb_fValidatedHeaders (snd x)) (vBlocksInFlight st)))"
    unfolding inflight_inv_def by blast+
  have fresh: "it \<notin> fst ` set (vBlocksInFlight state)"
    unfolding it_def by (rule new_node_fresh)
  then have none: "map_of (vBlocksInFlight state) it = None"
    by (simp add: map_of_eq_None_iff)
  have l2': "vBlocksInFlight state2 = vBlocksInFlight state @ [(it, newentry)]"
    using l2 by (simp add: it_def newentry_def)
  have idx2: "mapBlocksInFlight s' = fmupd h (nodeid, it) (mapBlocksInFlight s1)"
    using idx' by (simp add: it_def)
  have a': "\<exists>st qb. fmlookup (mapNodeState s') q = Some st
             \<and> map_of (vBlocksInFlight st) it' = Some qb \<and> qb_hash qb = h'"
    if h': "fmlookup (mapBlocksInFlight s') h' = Some (q, it')" for h' q it'
  proof (cases "h' = h")
    case True
    with h' have "q = nodeid" "it' = it" by (auto simp: idx2)
    moreover have "map_of (vBlocksInFlight state2) it = Some newentry"
      using none by (simp add: l2' map_add_def)
    ultimately show ?thesis using True by (auto simp: reg' newentry_def)
  next
    case False
    with h' have old: "fmlookup (mapBlocksInFlight s1) h' = Some (q, it')" by (simp add: idx2)
    from a[OF old] obtain st0 qb where
      q: "fmlookup (mapNodeState s1) q = Some st0" "map_of (vBlocksInFlight st0) it' = Some qb" "qb_hash qb = h'"
      by blast
    show ?thesis
    proof (cases "q = nodeid")
      case False
      with q show ?thesis by (auto simp: reg')
    next
      case True
      with q st have st0: "st0 = state" by simp
      have "map_of (vBlocksInFlight state2) it' = Some qb"
        using q(2) st0 by (simp add: l2' map_add_def)
      with True q(3) show ?thesis by (auto simp: reg')
    qed
  qed
  have b': "fmlookup (mapBlocksInFlight s') (qb_hash qb) = Some (q, it')"
    if q: "fmlookup (mapNodeState s') q = Some st1" and el: "(it', qb) \<in> set (vBlocksInFlight st1)"
    for q st1 it' qb
  proof (cases "q = nodeid")
    case False
    with q have q0: "fmlookup (mapNodeState s1) q = Some st1" by (simp add: reg')
    have old: "fmlookup (mapBlocksInFlight s1) (qb_hash qb) = Some (q, it')" using b[OF q0 el] .
    with hfree have "qb_hash qb \<noteq> h" by auto
    with old show ?thesis by (simp add: idx2)
  next
    case True
    with q have st1: "st1 = state2" by (simp add: reg')
    from el consider "(it', qb) \<in> set (vBlocksInFlight state)" | "it' = it" "qb = newentry"
      by (auto simp: st1 l2')
    then show ?thesis
    proof cases
      case 1
      have old: "fmlookup (mapBlocksInFlight s1) (qb_hash qb) = Some (nodeid, it')" using b[OF st 1] .
      with hfree have "qb_hash qb \<noteq> h" by auto
      with old True show ?thesis by (simp add: idx2)
    next
      case 2
      with True show ?thesis by (simp add: idx2 newentry_def)
    qed
  qed
  have cd': "distinct (map fst (vBlocksInFlight st1))
        \<and> nBlocksInFlightValidHeaders st1
            = int (length (filter (\<lambda>x. qb_fValidatedHeaders (snd x)) (vBlocksInFlight st1)))"
    if q: "fmlookup (mapNodeState s') q = Some st1" for q st1
  proof (cases "q = nodeid")
    case False
    with q have "fmlookup (mapNodeState s1) q = Some st1" by (simp add: reg')
    then show ?thesis using c d by blast
  next
    case True
    with q have st1: "st1 = state2" by (simp add: reg')
    show ?thesis
      unfolding st1 l2' n2
      using c[OF st] d[OF st] fresh by (simp add: newentry_def)
  qed
  show ?thesis unfolding inflight_inv_def using a' b' cd' by blast
qed

lemma peers_where_iff:
  "p |\<in>| peers_where P m \<longleftrightarrow> (\<exists>st. fmlookup m p = Some st \<and> P st)"
  by (auto simp: peers_where_def fmlookup_dom_iff split: option.splits)

lemma fcard_fminus1_int:
  "int (fcard (A |-| {|p|})) = int (fcard A) - of_bool (p |\<in>| A)"
proof (cases "p |\<in>| A")
  case True
  then have "Suc (fcard (A |-| {|p|})) = fcard A" by (rule fcard_Suc_fminus1)
  with True show ?thesis by simp
next
  case False
  then show ?thesis by (simp add: fcard_fminus_fsingleton_if)
qed

lemma peers_where_fmupd:
  "peers_where P (fmupd p st' m) =
     (if P st' then finsert p (peers_where P m |-| {|p|}) else peers_where P m |-| {|p|})"
  by (rule fset_eqI) (auto simp: peers_where_iff)

lemma peers_where_fmdrop:
  "peers_where P (fmdrop p m) = peers_where P m |-| {|p|}"
  by (rule fset_eqI) (auto simp: peers_where_iff)

lemma fcard_peers_where_fmupd:
  assumes "fmlookup m p = Some st"
  shows "int (fcard (peers_where P (fmupd p st' m))) =
         int (fcard (peers_where P m)) - of_bool (P st) + of_bool (P st')"
proof -
  have mem: "p |\<in>| peers_where P m \<longleftrightarrow> P st"
    using assms by (simp add: peers_where_iff)
  have ins: "int (fcard (finsert p (peers_where P m |-| {|p|}))) =
             int (fcard (peers_where P m |-| {|p|})) + 1"
    by (simp add: fcard_finsert_disjoint del: finsert_fminus_single)
  show ?thesis
    unfolding peers_where_fmupd using ins mem fcard_fminus1_int[of "peers_where P m" p]
    by (simp del: finsert_fminus_single)
qed

lemma fcard_peers_where_fmdrop:
  assumes "fmlookup m p = Some st"
  shows "int (fcard (peers_where P (fmdrop p m))) = int (fcard (peers_where P m)) - of_bool (P st)"
proof -
  have mem: "p |\<in>| peers_where P m \<longleftrightarrow> P st"
    using assms by (simp add: peers_where_iff)
  show ?thesis
    unfolding peers_where_fmdrop using mem fcard_fminus1_int[of "peers_where P m" p] by simp
qed

lemma peers_where_fmupd_new:
  assumes "fmlookup m p = None" and "\<not> P st'"
  shows "peers_where P (fmupd p st' m) = peers_where P m"
  using assms by (intro fset_eqI) (auto simp: peers_where_iff)

lemma peers_where_fmempty: "peers_where P fmempty = {||}"
  by (simp add: peers_where_def)

lemma validated_peers_where:
  "validated_peers m = peers_where (\<lambda>st. 0 < nBlocksInFlightValidHeaders st) m"
  by (simp add: validated_peers_def peers_where_def)

lemma preferred_peers_where: "preferred_peers m = peers_where fPreferredDownload m"
  by (simp add: preferred_peers_def peers_where_def)

lemma EraseOrphanTx_frame:
  "(EraseOrphanTx h s)\<lparr>mapOrphanTransactions := mapOrphanTransactions s,
       mapOrphanTransactionsByPrev := mapOrphanTransactionsByPrev s\<rparr> = s"
  by (simp add: EraseOrphanTx_def split: option.splits)

lemma EraseOrphanTx_orphan_inv:
  assumes "orphan_inv s"
  shows "orphan_inv (EraseOrphanTx h s)"
proof (cases "fmlookup (mapOrphanTransactions s) h")
  case None
  with assms show ?thesis by (simp add: EraseOrphanTx_def)
next
  case (Some orphan)
  note e = EraseOrphanTx_present[OF Some]
  from assms have keys: "\<And>k orphan. fmlookup (mapOrphanTransactions s) k = Some orphan
                          \<Longrightarrow> GetHash (otx_tx orphan) = k"
    and rix: "\<And>p h. \<not> not_indexed (mapOrphanTransactionsByPrev s) p h \<Longrightarrow>
         (\<exists>orphan. fmlookup (mapOrphanTransactions s) h = Some orphan
             \<and> p \<in> (\<lambda>txin. op_hash (prevout txin)) ` set (vin (otx_tx orphan)))"
    unfolding orphan_inv_def by blast+
  have keys': "GetHash (otx_tx o') = k"
    if "fmlookup (mapOrphanTransactions (EraseOrphanTx h s)) k = Some o'" for k o'
    using that keys[of k o'] by (auto simp: e split: if_splits)
  have rix': "\<exists>o'. fmlookup (mapOrphanTransactions (EraseOrphanTx h s)) h' = Some o'
             \<and> p \<in> (\<lambda>txin. op_hash (prevout txin)) ` set (vin (otx_tx o'))"
    if ni: "\<not> not_indexed (mapOrphanTransactionsByPrev (EraseOrphanTx h s)) p h'" for p h'
  proof -
    from ni have "\<not> not_indexed (mapOrphanTransactionsByPrev s) p h'"
      using EraseOrphanTx_vin_keeps_not_indexed[of "mapOrphanTransactionsByPrev s" p h' h
          "vin (otx_tx orphan)"]
      by (auto simp: e)
    from rix[OF this] obtain o' where
      o': "fmlookup (mapOrphanTransactions s) h' = Some o'"
        "p \<in> (\<lambda>txin. op_hash (prevout txin)) ` set (vin (otx_tx o'))"
      by blast
    have "h' \<noteq> h"
    proof
      assume "h' = h"
      with o' Some have "p \<in> (\<lambda>txin. op_hash (prevout txin)) ` set (vin (otx_tx orphan))"
        by simp
      then obtain txin where "txin \<in> set (vin (otx_tx orphan))" "p = op_hash (prevout txin)"
        by blast
      then have "not_indexed (mapOrphanTransactionsByPrev (EraseOrphanTx h s)) p h"
        by (simp add: e EraseOrphanTx_vin_removes)
      with ni \<open>h' = h\<close> show False by simp
    qed
    with o' show ?thesis by (auto simp: e)
  qed
  show ?thesis unfolding orphan_inv_def using keys' rix' by blast
qed

lemma AddOrphanTx_orphan_inv:
  assumes "orphan_inv s"
  shows "orphan_inv (snd (AddOrphanTx txn peer s))"
proof (cases "GetHash txn |\<in>| fmdom (mapOrphanTransactions s) \<or> GetSerializeSize txn > 5000")
  case True
  with assms show ?thesis by (auto simp: AddOrphanTx_def Let_def)
next
  case False
  then have fresh: "fmlookup (mapOrphanTransactions s) (GetHash txn) = None"
    by (simp add: fmdom_notD)
  define s' where "s' = snd (AddOrphanTx txn peer s)"
  have pool: "mapOrphanTransactions s'
                = fmupd (GetHash txn) \<lparr>otx_tx = txn, otx_fromPeer = peer\<rparr> (mapOrphanTransactions s)"
    using False by (simp add: s'_def AddOrphanTx_def Let_def)
  have rev: "fmlookup (mapOrphanTransactionsByPrev s') p
                   = (if p \<in> set (map (\<lambda>txin. op_hash (prevout txin)) (vin txn))
                      then Some (insert (GetHash txn)
                             (case fmlookup (mapOrphanTransactionsByPrev s) p of
                                None \<Rightarrow> {} | Some S \<Rightarrow> S))
                      else fmlookup (mapOrphanTransactionsByPrev s) p)" for p
    using False by (simp add: s'_def AddOrphanTx_def Let_def AddOrphanTx_fold_lookup)
  from assms have keys: "\<And>k orphan. fmlookup (mapOrphanTransactions s) k = Some orphan
                          \<Longrightarrow> GetHash (otx_tx orphan) = k"
    and rix: "\<And>p h. \<not> not_indexed (mapOrphanTransactionsByPrev s) p h \<Longrightarrow>
         (\<exists>orphan. fmlookup (mapOrphanTransactions s) h = Some orphan
             \<and> p \<in> (\<lambda>txin. op_hash (prevout txin)) ` set (vin (otx_tx orphan)))"
    unfolding orphan_inv_def by blast+
  have keys': "GetHash (otx_tx o') = k" if "fmlookup (mapOrphanTransactions s') k = Some o'" for k o'
    using that keys[of k o'] by (auto simp: pool split: if_splits)
  have rix': "\<exists>o'. fmlookup (mapOrphanTransactions s') h = Some o'
             \<and> p \<in> (\<lambda>txin. op_hash (prevout txin)) ` set (vin (otx_tx o'))"
    if ni: "\<not> not_indexed (mapOrphanTransactionsByPrev s') p h" for p h
  proof (cases "h = GetHash txn")
    case True
    have "p \<in> set (map (\<lambda>txin. op_hash (prevout txin)) (vin txn))"
    proof (rule ccontr)
      assume "p \<notin> set (map (\<lambda>txin. op_hash (prevout txin)) (vin txn))"
      with ni have "\<not> not_indexed (mapOrphanTransactionsByPrev s) p h"
        by (simp add: not_indexed_def rev)
      from rix[OF this] fresh True show False by simp
    qed
    with True show ?thesis by (simp add: pool)
  next
    case False
    with ni have "\<not> not_indexed (mapOrphanTransactionsByPrev s) p h"
      by (auto simp: not_indexed_def rev split: if_splits option.splits)
    from rix[OF this] False show ?thesis by (auto simp: pool)
  qed
  show ?thesis unfolding orphan_inv_def s'_def[symmetric] using keys' rix' by blast
qed

lemma AddOrphanTx_frame:
  "(snd (AddOrphanTx txn peer s))\<lparr>mapOrphanTransactions := mapOrphanTransactions s,
       mapOrphanTransactionsByPrev := mapOrphanTransactionsByPrev s\<rparr> = s"
  by (simp add: AddOrphanTx_def Let_def)

lemma EraseOrphansFor_loop_ok:
  "orphan_inv s \<Longrightarrow> distinct ks \<Longrightarrow>
   \<exists>s'. EraseOrphansFor_loop peer ks s = Inr s' \<and> orphan_inv s'
      \<and> s'\<lparr>mapOrphanTransactions := mapOrphanTransactions s,
            mapOrphanTransactionsByPrev := mapOrphanTransactionsByPrev s\<rparr> = s"
proof (induction ks arbitrary: s)
  case Nil
  then show ?case by simp
next
  case (Cons k ks)
  from Cons.prems have dist: "distinct ks" and knot: "k \<notin> set ks" by simp_all
  show ?case
  proof (cases "fmlookup (mapOrphanTransactions s) k")
    case None
    then show ?thesis using Cons.IH[OF Cons.prems(1) dist] by simp
  next
    case (Some maybeErase)
    show ?thesis
    proof (cases "otx_fromPeer maybeErase = peer")
      case False
      with Some show ?thesis using Cons.IH[OF Cons.prems(1) dist] by simp
    next
      case True
      have hk: "GetHash (otx_tx maybeErase) = k"
        using Cons.prems(1) Some by (simp add: orphan_inv_def)
      have "List.find (\<lambda>k'. k' |\<in>| fmdom (mapOrphanTransactions s)) ks \<noteq> Some k"
        using knot by (auto simp: find_Some_iff)
      then have step: "EraseOrphansFor_loop peer (k # ks) s
                        = EraseOrphansFor_loop peer ks (EraseOrphanTx k s)"
        using Some True hk by (simp add: Let_def)
      from Cons.IH[OF EraseOrphanTx_orphan_inv[OF Cons.prems(1)] dist, of k]
      obtain s' where
        r: "EraseOrphansFor_loop peer ks (EraseOrphanTx k s) = Inr s'" "orphan_inv s'"
        and f: "s'\<lparr>mapOrphanTransactions := mapOrphanTransactions (EraseOrphanTx k s),
            mapOrphanTransactionsByPrev := mapOrphanTransactionsByPrev (EraseOrphanTx k s)\<rparr>
            = EraseOrphanTx k s"
        by blast
      have "s'\<lparr>mapOrphanTransactions := mapOrphanTransactions s,
            mapOrphanTransactionsByPrev := mapOrphanTransactionsByPrev s\<rparr>
          = (s'\<lparr>mapOrphanTransactions := mapOrphanTransactions (EraseOrphanTx k s),
            mapOrphanTransactionsByPrev := mapOrphanTransactionsByPrev (EraseOrphanTx k s)\<rparr>)
            \<lparr>mapOrphanTransactions := mapOrphanTransactions s,
            mapOrphanTransactionsByPrev := mapOrphanTransactionsByPrev s\<rparr>"
        by simp
      also have "\<dots> = s" unfolding f by (rule EraseOrphanTx_frame)
      finally show ?thesis using r step by simp
    qed
  qed
qed

lemma EraseOrphansFor_ok:
  assumes "orphan_inv s"
  shows "\<exists>s'. EraseOrphansFor peer s = Inr s' \<and> orphan_inv s'
      \<and> s'\<lparr>mapOrphanTransactions := mapOrphanTransactions s,
            mapOrphanTransactionsByPrev := mapOrphanTransactionsByPrev s\<rparr> = s"
  unfolding EraseOrphansFor_def
  by (rule EraseOrphansFor_loop_ok[OF assms])
     (simp add: map_keys_def sorted_list_of_fset.rep_eq)

lemma fold_fmdrop_lookup:
  "fmlookup (fold (\<lambda>entry m. fmdrop (qb_hash (snd entry)) m) xs m) h
     = (if h \<in> (\<lambda>entry. qb_hash (snd entry)) ` set xs then None else fmlookup m h)"
  by (induction xs arbitrary: m) auto

lemma FinalizeNode_net_inv:
  assumes inv: "net_inv s" and st: "fmlookup (mapNodeState s) nodeid = Some state"
  shows "\<exists>fUpdateConnectionTime s'.
           FinalizeNode nodeid s = Inr (fUpdateConnectionTime, s') \<and> net_inv s'
         \<and> mapNodeState s' = fmdrop nodeid (mapNodeState s)
         \<and> (mapNodeState s' = fmempty \<longrightarrow>
               mapBlocksInFlight s' = fmempty \<and> nPreferredDownload s' = 0
               \<and> nPeersWithValidatedDownloads s' = 0)"
proof -
  from inv have ii: "inflight_inv s" and vc: "validated_counter_ok s"
    and pc: "preferred_counter_ok s" and oi: "orphan_inv s"
    by (simp_all add: net_inv_def)
  from ii have
    a: "\<And>h nodeid it. fmlookup (mapBlocksInFlight s) h = Some (nodeid, it) \<Longrightarrow>
        (\<exists>st qb. fmlookup (mapNodeState s) nodeid = Some st
             \<and> map_of (vBlocksInFlight st) it = Some qb \<and> qb_hash qb = h)"
    and b: "\<And>nodeid st it qb. fmlookup (mapNodeState s) nodeid = Some st
           \<Longrightarrow> (it, qb) \<in> set (vBlocksInFlight st) \<Longrightarrow>
        fmlookup (mapBlocksInFlight s) (qb_hash qb) = Some (nodeid, it)"
    and c: "\<And>nodeid st. fmlookup (mapNodeState s) nodeid = Some st \<Longrightarrow>
        distinct (map fst (vBlocksInFlight st))"
    and d: "\<And>nodeid st. fmlookup (mapNodeState s) nodeid = Some st \<Longrightarrow>
        nBlocksInFlightValidHeaders st
            = int (length (filter (\<lambda>x. qb_fValidatedHeaders (snd x)) (vBlocksInFlight st)))"
    unfolding inflight_inv_def by blast+
  define idx where "idx = fold (\<lambda>entry m. fmdrop (qb_hash (snd entry)) m)
                             (vBlocksInFlight state) (mapBlocksInFlight s)"
  define src where "src = fmfilter (\<lambda>k. case fmlookup (mapBlockSource s) k of
                                         None \<Rightarrow> False
                                       | Some src \<Rightarrow> fst src \<noteq> nodeid)
                                 (mapBlockSource s)"
  define s3 where "s3 = s\<lparr>nSyncStarted := (if fSyncStarted state then nSyncStarted s - 1 else nSyncStarted s),
                          mapBlocksInFlight := idx, mapBlockSource := src\<rparr>"
  have oi3: "orphan_inv s3" using oi by (simp add: orphan_inv_def s3_def)
  from EraseOrphansFor_ok[OF oi3, of nodeid] obtain s4 where
    e: "EraseOrphansFor nodeid s3 = Inr s4" and oi4: "orphan_inv s4"
    and f4: "s4\<lparr>mapOrphanTransactions := mapOrphanTransactions s3,
            mapOrphanTransactionsByPrev := mapOrphanTransactionsByPrev s3\<rparr> = s3"
    by blast
  have s4_fields: "mapNodeState s4 = mapNodeState s" "mapBlocksInFlight s4 = idx"
    "nPreferredDownload s4 = nPreferredDownload s"
    "nPeersWithValidatedDownloads s4 = nPeersWithValidatedDownloads s"
  proof -
    have "mapNodeState s4 = mapNodeState (s4\<lparr>mapOrphanTransactions := mapOrphanTransactions s3,
            mapOrphanTransactionsByPrev := mapOrphanTransactionsByPrev s3\<rparr>)" by simp
    then show "mapNodeState s4 = mapNodeState s" unfolding f4 by (simp add: s3_def)
    have "mapBlocksInFlight s4 = mapBlocksInFlight (s4\<lparr>mapOrphanTransactions := mapOrphanTransactions s3,
            mapOrphanTransactionsByPrev := mapOrphanTransactionsByPrev s3\<rparr>)" by simp
    then show "mapBlocksInFlight s4 = idx" unfolding f4 by (simp add: s3_def)
    have "nPreferredDownload s4 = nPreferredDownload (s4\<lparr>mapOrphanTransactions := mapOrphanTransactions s3,
            mapOrphanTransactionsByPrev := mapOrphanTransactionsByPrev s3\<rparr>)" by simp
    then show "nPreferredDownload s4 = nPreferredDownload s" unfolding f4 by (simp add: s3_def)
    have "nPeersWithValidatedDownloads s4 = nPeersWithValidatedDownloads (s4\<lparr>mapOrphanTransactions := mapOrphanTransactions s3,
            mapOrphanTransactionsByPrev := mapOrphanTransactionsByPrev s3\<rparr>)" by simp
    then show "nPeersWithValidatedDownloads s4 = nPeersWithValidatedDownloads s"
      unfolding f4 by (simp add: s3_def)
  qed
  define s5 where "s5 = s4\<lparr>nPreferredDownload :=
                               nPreferredDownload s4 - of_bool (fPreferredDownload state),
                             nPeersWithValidatedDownloads :=
                               nPeersWithValidatedDownloads s4
                                 - of_bool (nBlocksInFlightValidHeaders state \<noteq> 0)\<rparr>"
  define s6 where "s6 = s5\<lparr>mapNodeState := fmdrop nodeid (mapNodeState s5)\<rparr>"
  have nonneg: "0 \<le> nBlocksInFlightValidHeaders state" using d[OF st] by simp
  have reg6: "mapNodeState s6 = fmdrop nodeid (mapNodeState s)"
    by (simp add: s6_def s5_def s4_fields)
  have idx6: "mapBlocksInFlight s6 = idx" by (simp add: s6_def s5_def s4_fields)
  have pc6: "preferred_counter_ok s6"
    using pc fcard_peers_where_fmdrop[OF st, of fPreferredDownload]
    by (simp add: preferred_counter_ok_def s6_def s5_def s4_fields preferred_peers_where)
  have vc6: "validated_counter_ok s6"
    using vc nonneg fcard_peers_where_fmdrop[OF st, of "\<lambda>st. 0 < nBlocksInFlightValidHeaders st"]
    by (auto simp: validated_counter_ok_def s6_def s5_def s4_fields validated_peers_where)
  have oi6: "orphan_inv s6" using oi4 by (simp add: orphan_inv_def s6_def s5_def)
  have idx_lookup: "fmlookup idx h =
      (if h \<in> (\<lambda>entry. qb_hash (snd entry)) ` set (vBlocksInFlight state) then None
       else fmlookup (mapBlocksInFlight s) h)" for h
    unfolding idx_def by (rule fold_fmdrop_lookup)
  have owner: "q \<noteq> nodeid \<and> fmlookup (mapBlocksInFlight s) h = Some (q, it)"
    if "fmlookup idx h = Some (q, it)" for h q it
  proof -
    from that have nh: "h \<notin> (\<lambda>entry. qb_hash (snd entry)) ` set (vBlocksInFlight state)"
      and old: "fmlookup (mapBlocksInFlight s) h = Some (q, it)"
      by (auto simp: idx_lookup split: if_splits)
    have "q \<noteq> nodeid"
    proof
      assume "q = nodeid"
      with a[OF old] st obtain qb where "map_of (vBlocksInFlight state) it = Some qb" "qb_hash qb = h"
        by auto
      then have "(it, qb) \<in> set (vBlocksInFlight state)" by (simp add: map_of_SomeD)
      with \<open>qb_hash qb = h\<close> nh show False by force
    qed
    with old show ?thesis by simp
  qed
  have ii6: "inflight_inv s6"
  proof -
    have a': "\<exists>st qb. fmlookup (mapNodeState s6) q = Some st
             \<and> map_of (vBlocksInFlight st) it = Some qb \<and> qb_hash qb = h"
      if "fmlookup (mapBlocksInFlight s6) h = Some (q, it)" for h q it
      using owner[of h q it] that a[of h q it] by (auto simp: idx6 reg6)
    have b': "fmlookup (mapBlocksInFlight s6) (qb_hash qb) = Some (q, it)"
      if q: "fmlookup (mapNodeState s6) q = Some st1" and el: "(it, qb) \<in> set (vBlocksInFlight st1)"
      for q st1 it qb
    proof -
      from q have ne: "q \<noteq> nodeid" and q0: "fmlookup (mapNodeState s) q = Some st1"
        by (auto simp: reg6 split: if_splits)
      have old: "fmlookup (mapBlocksInFlight s) (qb_hash qb) = Some (q, it)" using b[OF q0 el] .
      have "qb_hash qb \<notin> (\<lambda>entry. qb_hash (snd entry)) ` set (vBlocksInFlight state)"
      proof
        assume "qb_hash qb \<in> (\<lambda>entry. qb_hash (snd entry)) ` set (vBlocksInFlight state)"
        then obtain it' qb' where "(it', qb') \<in> set (vBlocksInFlight state)" "qb_hash qb' = qb_hash qb"
          by force
        with b[OF st, of it' qb'] old ne show False by simp
      qed
      with old show ?thesis by (simp add: idx6 idx_lookup)
    qed
    have cd': "distinct (map fst (vBlocksInFlight st1))
        \<and> nBlocksInFlightValidHeaders st1
            = int (length (filter (\<lambda>x. qb_fValidatedHeaders (snd x)) (vBlocksInFlight st1)))"
      if q: "fmlookup (mapNodeState s6) q = Some st1" for q st1
    proof -
      from q have "fmlookup (mapNodeState s) q = Some st1"
        by (auto simp: reg6 split: if_splits)
      then show ?thesis using c d by blast
    qed
    show ?thesis unfolding inflight_inv_def using a' b' cd' by blast
  qed
  have inv6: "net_inv s6" using ii6 vc6 pc6 oi6 by (simp add: net_inv_def)
  have empty: "mapBlocksInFlight s6 = fmempty \<and> nPreferredDownload s6 = 0
               \<and> nPeersWithValidatedDownloads s6 = 0"
    if em: "mapNodeState s6 = fmempty"
  proof -
    have "fmlookup (mapBlocksInFlight s6) h = None" for h
    proof (cases "fmlookup (mapBlocksInFlight s6) h")
      case None
      then show ?thesis .
    next
      case (Some x)
      obtain q it where "x = (q, it)" by (cases x)
      with Some ii6 obtain st1 where "fmlookup (mapNodeState s6) q = Some st1"
        unfolding inflight_inv_def by blast
      with em show ?thesis by simp
    qed
    then have "mapBlocksInFlight s6 = fmempty" by (intro fmap_ext) simp
    moreover have "nPreferredDownload s6 = 0"
      using pc6 by (simp add: preferred_counter_ok_def em preferred_peers_where peers_where_fmempty)
    moreover have "nPeersWithValidatedDownloads s6 = 0"
      using vc6 by (simp add: validated_counter_ok_def em validated_peers_where peers_where_fmempty)
    ultimately show ?thesis by simp
  qed
  have ge0: "0 \<le> nPeersWithValidatedDownloads s5"
    using vc6 by (simp add: validated_counter_ok_def s6_def)
  have s3': "(if fSyncStarted state then s\<lparr>nSyncStarted := nSyncStarted s - 1\<rparr> else s)
        \<lparr>mapBlocksInFlight :=
           fold (\<lambda>entry m. fmdrop (qb_hash (snd entry)) m) (vBlocksInFlight state)
             (mapBlocksInFlight (if fSyncStarted state then s\<lparr>nSyncStarted := nSyncStarted s - 1\<rparr> else s)),
         mapBlockSource :=
           fmfilter (\<lambda>k. case fmlookup (mapBlockSource
               ((if fSyncStarted state then s\<lparr>nSyncStarted := nSyncStarted s - 1\<rparr> else s)
                \<lparr>mapBlocksInFlight :=
                   fold (\<lambda>entry m. fmdrop (qb_hash (snd entry)) m) (vBlocksInFlight state)
                     (mapBlocksInFlight (if fSyncStarted state then s\<lparr>nSyncStarted := nSyncStarted s - 1\<rparr> else s))\<rparr>)) k of
                                         None \<Rightarrow> False
                                       | Some src \<Rightarrow> fst src \<noteq> nodeid)
            (mapBlockSource
               ((if fSyncStarted state then s\<lparr>nSyncStarted := nSyncStarted s - 1\<rparr> else s)
                \<lparr>mapBlocksInFlight :=
                   fold (\<lambda>entry m. fmdrop (qb_hash (snd entry)) m) (vBlocksInFlight state)
                     (mapBlocksInFlight (if fSyncStarted state then s\<lparr>nSyncStarted := nSyncStarted s - 1\<rparr> else s))\<rparr>))\<rparr>
       = s3"
    by (simp add: s3_def idx_def src_def cong del: fmfilter_cong)
  have tail: "(if \<not> 0 \<le> nPeersWithValidatedDownloads s5 then Inl AssertionFailed
          else if mapNodeState s6 = fmempty
               then if \<not> mapBlocksInFlight s6 = fmempty then Inl AssertionFailed
                    else if \<not> nPreferredDownload s6 = 0 then Inl AssertionFailed
                    else if \<not> nPeersWithValidatedDownloads s6 = 0 then Inl AssertionFailed
                    else Inr (nMisbehavior state = 0 \<and> fCurrentlyConnected state, s6)
               else Inr (nMisbehavior state = 0 \<and> fCurrentlyConnected state, s6))
        = Inr (nMisbehavior state = 0 \<and> fCurrentlyConnected state, s6)"
    using ge0 empty by simp
  have run: "FinalizeNode nodeid s = Inr (nMisbehavior state = 0 \<and> fCurrentlyConnected state, s6)"
    apply (simp only: FinalizeNode_def State_def st option.case Let_def)
    apply (simp only: s3' e sum.case)
    apply (simp only: s5_def[symmetric])
    apply (simp only: s6_def[symmetric])
    apply (rule tail)
    done
  show ?thesis using run inv6 reg6 empty by blast
qed

lemma untracked_write_lookup:
  assumes "untracked_write s s'"
  shows "(\<exists>st'. fmlookup (mapNodeState s') p = Some st' \<and> Q (vBlocksInFlight st')
            (nBlocksInFlightValidHeaders st') (fPreferredDownload st'))
       \<longleftrightarrow> (\<exists>st. fmlookup (mapNodeState s) p = Some st \<and> Q (vBlocksInFlight st)
            (nBlocksInFlightValidHeaders st) (fPreferredDownload st))"
proof -
  have dom: "(\<exists>st'. fmlookup (mapNodeState s') p = Some st') \<longleftrightarrow> (\<exists>st. fmlookup (mapNodeState s) p = Some st)"
    using assms unfolding untracked_write_def by (metis fmlookup_dom_iff)
  have same: "vBlocksInFlight st' = vBlocksInFlight st
           \<and> nBlocksInFlightValidHeaders st' = nBlocksInFlightValidHeaders st
           \<and> fPreferredDownload st' = fPreferredDownload st"
    if "fmlookup (mapNodeState s) p = Some st" "fmlookup (mapNodeState s') p = Some st'" for st st'
    using assms that unfolding untracked_write_def by blast
  show ?thesis
  proof
    assume "\<exists>st'. fmlookup (mapNodeState s') p = Some st' \<and> Q (vBlocksInFlight st')
            (nBlocksInFlightValidHeaders st') (fPreferredDownload st')"
    then obtain st' where 1: "fmlookup (mapNodeState s') p = Some st'"
      "Q (vBlocksInFlight st') (nBlocksInFlightValidHeaders st') (fPreferredDownload st')" by blast
    with dom obtain st where 2: "fmlookup (mapNodeState s) p = Some st" by blast
    from same[OF 2 1(1)] 1(2) 2 show "\<exists>st. fmlookup (mapNodeState s) p = Some st \<and> Q (vBlocksInFlight st)
            (nBlocksInFlightValidHeaders st) (fPreferredDownload st)" by auto
  next
    assume "\<exists>st. fmlookup (mapNodeState s) p = Some st \<and> Q (vBlocksInFlight st)
            (nBlocksInFlightValidHeaders st) (fPreferredDownload st)"
    then obtain st where 1: "fmlookup (mapNodeState s) p = Some st"
      "Q (vBlocksInFlight st) (nBlocksInFlightValidHeaders st) (fPreferredDownload st)" by blast
    with dom obtain st' where 2: "fmlookup (mapNodeState s') p = Some st'" by blast
    from same[OF 1(1) 2] 1(2) 2 show "\<exists>st'. fmlookup (mapNodeState s') p = Some st' \<and> Q (vBlocksInFlight st')
            (nBlocksInFlightValidHeaders st') (fPreferredDownload st')" by auto
  qed
qed

lemma untracked_write_net_inv:
  assumes w: "untracked_write s s'" and inv: "net_inv s"
  shows "net_inv s'"
proof -
  from inv have ii: "inflight_inv s" and vc: "validated_counter_ok s"
    and pc: "preferred_counter_ok s" and oi: "orphan_inv s"
    by (simp_all add: net_inv_def)
  from w have idx: "mapBlocksInFlight s' = mapBlocksInFlight s"
    and npd: "nPreferredDownload s' = nPreferredDownload s"
    and npv: "nPeersWithValidatedDownloads s' = nPeersWithValidatedDownloads s"
    and orp: "mapOrphanTransactions s' = mapOrphanTransactions s"
      "mapOrphanTransactionsByPrev s' = mapOrphanTransactionsByPrev s"
    by (simp_all add: untracked_write_def)
  have bwd: "\<exists>st. fmlookup (mapNodeState s) p = Some st \<and> vBlocksInFlight st = vBlocksInFlight st'
       \<and> nBlocksInFlightValidHeaders st = nBlocksInFlightValidHeaders st'"
    if "fmlookup (mapNodeState s') p = Some st'" for p st'
    using untracked_write_lookup[OF w, of p
        "\<lambda>l n f. l = vBlocksInFlight st' \<and> n = nBlocksInFlightValidHeaders st'"] that
    by auto
  have forth: "\<exists>st'. fmlookup (mapNodeState s') p = Some st' \<and> vBlocksInFlight st' = vBlocksInFlight st"
    if "fmlookup (mapNodeState s) p = Some st" for p st
    using untracked_write_lookup[OF w, of p "\<lambda>l n f. l = vBlocksInFlight st"] that
    by auto
  have "validated_peers (mapNodeState s') = validated_peers (mapNodeState s)"
    unfolding validated_peers_where
    by (rule fset_eqI)
       (use untracked_write_lookup[OF w, of _ "\<lambda>l n f. 0 < n"] in \<open>simp add: peers_where_iff\<close>)
  then have vc': "validated_counter_ok s'"
    using vc by (simp add: validated_counter_ok_def npv)
  have "preferred_peers (mapNodeState s') = preferred_peers (mapNodeState s)"
    unfolding preferred_peers_where
    by (rule fset_eqI)
       (use untracked_write_lookup[OF w, of _ "\<lambda>l n f. f"] in \<open>simp add: peers_where_iff\<close>)
  then have pc': "preferred_counter_ok s'"
    using pc by (simp add: preferred_counter_ok_def npd)
  have oi': "orphan_inv s'" using oi by (simp add: orphan_inv_def orp)
  have ii': "inflight_inv s'"
    unfolding inflight_inv_def idx
  proof (intro conjI allI impI)
    fix h nodeid it
    assume "fmlookup (mapBlocksInFlight s) h = Some (nodeid, it)"
    with ii obtain st qb where "fmlookup (mapNodeState s) nodeid = Some st"
      "map_of (vBlocksInFlight st) it = Some qb" "qb_hash qb = h"
      unfolding inflight_inv_def by blast
    with forth[of nodeid st]
    show "\<exists>st qb. fmlookup (mapNodeState s') nodeid = Some st
             \<and> map_of (vBlocksInFlight st) it = Some qb \<and> qb_hash qb = h"
      by auto
  next
    fix nodeid st' it qb
    assume "fmlookup (mapNodeState s') nodeid = Some st' \<and> (it, qb) \<in> set (vBlocksInFlight st')"
    with bwd[of nodeid st'] ii
    show "fmlookup (mapBlocksInFlight s) (qb_hash qb) = Some (nodeid, it)"
      unfolding inflight_inv_def by metis
  next
    fix nodeid st'
    assume "fmlookup (mapNodeState s') nodeid = Some st'"
    with bwd[of nodeid st'] ii
    show "distinct (map fst (vBlocksInFlight st'))"
      unfolding inflight_inv_def by metis
  next
    fix nodeid st'
    assume "fmlookup (mapNodeState s') nodeid = Some st'"
    with bwd[of nodeid st'] ii
    show "nBlocksInFlightValidHeaders st'
            = int (length (filter (\<lambda>x. qb_fValidatedHeaders (snd x)) (vBlocksInFlight st')))"
      unfolding inflight_inv_def by metis
  qed
  show ?thesis using ii' vc' pc' oi' by (simp add: net_inv_def)
qed

lemma Misbehaving_untracked: "untracked_write s (Misbehaving gArgs pnode howmuch reason s)"
  by (auto simp: untracked_write_def Misbehaving_def State_def Let_def fmlookup_dom_iff
      split: option.splits if_splits intro!: fset_eqI)

lemma AlreadyHave_untracked: "AlreadyHave chain cinv s = Inr (r, s') \<Longrightarrow> untracked_write s s'"
  by (auto simp: untracked_write_def AlreadyHave_def Let_def
      split: GetDataMsg.splits option.splits if_splits)

lemma net_inv_init: "net_inv net_state_init"
  by (simp add: net_inv_def inflight_inv_def validated_counter_ok_def preferred_counter_ok_def
      orphan_inv_def net_state_init_def validated_peers_where preferred_peers_where
      peers_where_fmempty not_indexed_def)

lemma inflight_inv_fmupd_same_list:
  assumes ii: "inflight_inv s" and st: "fmlookup (mapNodeState s) p = Some st"
    and l: "vBlocksInFlight st' = vBlocksInFlight st"
    and n: "nBlocksInFlightValidHeaders st' = nBlocksInFlightValidHeaders st"
    and reg: "mapNodeState s' = fmupd p st' (mapNodeState s)"
    and idx: "mapBlocksInFlight s' = mapBlocksInFlight s"
  shows "inflight_inv s'"
proof -
  from ii have
    a: "\<And>h nodeid it. fmlookup (mapBlocksInFlight s) h = Some (nodeid, it) \<Longrightarrow>
        (\<exists>st qb. fmlookup (mapNodeState s) nodeid = Some st
             \<and> map_of (vBlocksInFlight st) it = Some qb \<and> qb_hash qb = h)"
    and b: "\<And>nodeid st it qb. fmlookup (mapNodeState s) nodeid = Some st
           \<Longrightarrow> (it, qb) \<in> set (vBlocksInFlight st) \<Longrightarrow>
        fmlookup (mapBlocksInFlight s) (qb_hash qb) = Some (nodeid, it)"
    and c: "\<And>nodeid st. fmlookup (mapNodeState s) nodeid = Some st \<Longrightarrow>
        distinct (map fst (vBlocksInFlight st))"
    and d: "\<And>nodeid st. fmlookup (mapNodeState s) nodeid = Some st \<Longrightarrow>
        nBlocksInFlightValidHeaders st
            = int (length (filter (\<lambda>x. qb_fValidatedHeaders (snd x)) (vBlocksInFlight st)))"
    unfolding inflight_inv_def by blast+
  have old: "\<exists>st0. fmlookup (mapNodeState s) q = Some st0
          \<and> vBlocksInFlight st0 = vBlocksInFlight st1
          \<and> nBlocksInFlightValidHeaders st0 = nBlocksInFlightValidHeaders st1"
    if "fmlookup (mapNodeState s') q = Some st1" for q st1
    using that st l n by (cases "q = p") (auto simp: reg)
  have new: "\<exists>st1. fmlookup (mapNodeState s') q = Some st1
          \<and> vBlocksInFlight st1 = vBlocksInFlight st0"
    if "fmlookup (mapNodeState s) q = Some st0" for q st0
    using that st l by (cases "q = p") (auto simp: reg)
  have a': "\<exists>st qb. fmlookup (mapNodeState s') q = Some st
             \<and> map_of (vBlocksInFlight st) it = Some qb \<and> qb_hash qb = h"
    if "fmlookup (mapBlocksInFlight s') h = Some (q, it)" for h q it
  proof -
    from that a[of h q it] obtain st0 qb where
      1: "fmlookup (mapNodeState s) q = Some st0" "map_of (vBlocksInFlight st0) it = Some qb"
         "qb_hash qb = h"
      by (auto simp: idx)
    from new[OF 1(1)] 1(2,3) show ?thesis by auto
  qed
  have b': "fmlookup (mapBlocksInFlight s') (qb_hash qb) = Some (q, it)"
    if "fmlookup (mapNodeState s') q = Some st1" "(it, qb) \<in> set (vBlocksInFlight st1)"
    for q st1 it qb
  proof -
    from old[OF that(1)] obtain st0 where
      1: "fmlookup (mapNodeState s) q = Some st0" "vBlocksInFlight st0 = vBlocksInFlight st1"
      by blast
    from b[OF 1(1), of it qb] that(2) 1(2) show ?thesis by (simp add: idx)
  qed
  have cd': "distinct (map fst (vBlocksInFlight st1))
        \<and> nBlocksInFlightValidHeaders st1
            = int (length (filter (\<lambda>x. qb_fValidatedHeaders (snd x)) (vBlocksInFlight st1)))"
    if "fmlookup (mapNodeState s') q = Some st1" for q st1
  proof -
    from old[OF that] obtain st0 where
      1: "fmlookup (mapNodeState s) q = Some st0" "vBlocksInFlight st0 = vBlocksInFlight st1"
         "nBlocksInFlightValidHeaders st0 = nBlocksInFlightValidHeaders st1"
      by blast
    from c[OF 1(1)] d[OF 1(1)] 1(2,3) show ?thesis by simp
  qed
  show ?thesis unfolding inflight_inv_def using a' b' cd' by blast
qed

lemma inflight_inv_fmupd_new:
  assumes ii: "inflight_inv s" and none: "fmlookup (mapNodeState s) p = None"
    and l: "vBlocksInFlight st' = []" and n: "nBlocksInFlightValidHeaders st' = 0"
    and reg: "mapNodeState s' = fmupd p st' (mapNodeState s)"
    and idx: "mapBlocksInFlight s' = mapBlocksInFlight s"
  shows "inflight_inv s'"
proof -
  from ii have
    a: "\<And>h nodeid it. fmlookup (mapBlocksInFlight s) h = Some (nodeid, it) \<Longrightarrow>
        (\<exists>st qb. fmlookup (mapNodeState s) nodeid = Some st
             \<and> map_of (vBlocksInFlight st) it = Some qb \<and> qb_hash qb = h)"
    and b: "\<And>nodeid st it qb. fmlookup (mapNodeState s) nodeid = Some st
           \<Longrightarrow> (it, qb) \<in> set (vBlocksInFlight st) \<Longrightarrow>
        fmlookup (mapBlocksInFlight s) (qb_hash qb) = Some (nodeid, it)"
    and c: "\<And>nodeid st. fmlookup (mapNodeState s) nodeid = Some st \<Longrightarrow>
        distinct (map fst (vBlocksInFlight st))"
    and d: "\<And>nodeid st. fmlookup (mapNodeState s) nodeid = Some st \<Longrightarrow>
        nBlocksInFlightValidHeaders st
            = int (length (filter (\<lambda>x. qb_fValidatedHeaders (snd x)) (vBlocksInFlight st)))"
    unfolding inflight_inv_def by blast+
  have a': "\<exists>st qb. fmlookup (mapNodeState s') q = Some st
             \<and> map_of (vBlocksInFlight st) it = Some qb \<and> qb_hash qb = h"
    if "fmlookup (mapBlocksInFlight s') h = Some (q, it)" for h q it
  proof -
    from that a[of h q it] obtain st0 qb where
      1: "fmlookup (mapNodeState s) q = Some st0" "map_of (vBlocksInFlight st0) it = Some qb"
         "qb_hash qb = h"
      by (auto simp: idx)
    with none have "q \<noteq> p" by auto
    with 1 show ?thesis by (auto simp: reg)
  qed
  have b': "fmlookup (mapBlocksInFlight s') (qb_hash qb) = Some (q, it)"
    if "fmlookup (mapNodeState s') q = Some st1" "(it, qb) \<in> set (vBlocksInFlight st1)"
    for q st1 it qb
  proof (cases "q = p")
    case True
    with that l show ?thesis by (simp add: reg)
  next
    case False
    with that(1) have "fmlookup (mapNodeState s) q = Some st1" by (simp add: reg)
    from b[OF this that(2)] show ?thesis by (simp add: idx)
  qed
  have cd': "distinct (map fst (vBlocksInFlight st1))
        \<and> nBlocksInFlightValidHeaders st1
            = int (length (filter (\<lambda>x. qb_fValidatedHeaders (snd x)) (vBlocksInFlight st1)))"
    if "fmlookup (mapNodeState s') q = Some st1" for q st1
  proof (cases "q = p")
    case True
    with that l n show ?thesis by (simp add: reg)
  next
    case False
    with that have "fmlookup (mapNodeState s) q = Some st1" by (simp add: reg)
    from c[OF this] d[OF this] show ?thesis by simp
  qed
  show ?thesis unfolding inflight_inv_def using a' b' cd' by blast
qed

lemma InitializeNode_net_inv:
  assumes inv: "net_inv s"
  shows "net_inv (InitializeNode nodeid s)"
proof (cases "nodeid |\<in>| fmdom (mapNodeState s)")
  case True
  with inv show ?thesis by (simp add: InitializeNode_def)
next
  case False
  then have none: "fmlookup (mapNodeState s) nodeid = None" by (simp add: fmdom_notD)
  define s' where "s' = s\<lparr>mapNodeState := fmupd nodeid CNodeState_new (mapNodeState s)\<rparr>"
  from inv have ii: "inflight_inv s" and vc: "validated_counter_ok s"
    and pc: "preferred_counter_ok s" and oi: "orphan_inv s"
    by (simp_all add: net_inv_def)
  have vc': "validated_counter_ok s'"
    using vc peers_where_fmupd_new[OF none, of "\<lambda>st. 0 < nBlocksInFlightValidHeaders st" CNodeState_new]
    by (simp add: validated_counter_ok_def s'_def validated_peers_where CNodeState_new_def)
  have pc': "preferred_counter_ok s'"
    using pc peers_where_fmupd_new[OF none, of fPreferredDownload CNodeState_new]
    by (simp add: preferred_counter_ok_def s'_def preferred_peers_where CNodeState_new_def)
  have oi': "orphan_inv s'" using oi by (simp add: orphan_inv_def s'_def)
  have ii': "inflight_inv s'"
    by (rule inflight_inv_fmupd_new[OF ii none, of CNodeState_new])
       (simp_all add: s'_def CNodeState_new_def)
  show ?thesis
    using False ii' vc' pc' oi' by (simp add: InitializeNode_def net_inv_def s'_def)
qed

lemma MarkBlockAsReceived_net_inv:
  assumes inv: "net_inv s" and run: "MarkBlockAsReceived now h s = Inr (r, s')"
  shows "net_inv s'"
proof -
  from inv have ii: "inflight_inv s" and vc: "validated_counter_ok s"
    and pc: "preferred_counter_ok s" and oi: "orphan_inv s"
    by (simp_all add: net_inv_def)
  have pc': "preferred_counter_ok s'"
    using run
  proof (cases rule: MarkBlockAsReceived_cases)
    case absent
    with pc show ?thesis by simp
  next
    case (present nodeid it state entry state3)
    show ?thesis
      using pc fcard_peers_where_fmupd[OF present(2), of fPreferredDownload state3]
      by (simp add: preferred_counter_ok_def present(7,8,10) preferred_peers_where)
  qed
  have oi': "orphan_inv s'"
    using run oi by (cases rule: MarkBlockAsReceived_cases) (simp_all add: orphan_inv_def)
  show ?thesis
    using MarkBlockAsReceived_inflight_inv[OF ii run]
      MarkBlockAsReceived_validated_counter[OF vc run] pc' oi'
    by (simp add: net_inv_def)
qed

lemma MarkBlockAsInFlight_net_inv:
  assumes inv: "net_inv s" and run: "MarkBlockAsInFlight now1 now2 nodeid h pindex s = Inr s'"
  shows "net_inv s'"
proof -
  from inv have ii: "inflight_inv s" and vc: "validated_counter_ok s"
    by (simp_all add: net_inv_def)
  from run show ?thesis
  proof (cases rule: MarkBlockAsInFlight_cases)
    case (1 r s1 state state2)
    have inv1: "net_inv s1" using MarkBlockAsReceived_net_inv[OF inv 1(1)] .
    then have pc1: "preferred_counter_ok s1" and oi1: "orphan_inv s1"
      by (simp_all add: net_inv_def)
    have pc': "preferred_counter_ok s'"
      using pc1 fcard_peers_where_fmupd[OF 1(2), of fPreferredDownload state2]
      by (simp add: preferred_counter_ok_def 1(5,6,8) preferred_peers_where)
    have oi': "orphan_inv s'" using oi1 by (simp add: orphan_inv_def 1(9,10))
    show ?thesis
      using MarkBlockAsInFlight_inflight_inv[OF ii run]
        MarkBlockAsInFlight_validated_counter[OF vc run] pc' oi'
      by (simp add: net_inv_def)
  qed
qed

lemma UpdatePreferredDownload_net_inv:
  assumes inv: "net_inv s" and run: "UpdatePreferredDownload node s = Inr s'"
  shows "net_inv s'"
proof -
  from inv have ii: "inflight_inv s" and vc: "validated_counter_ok s"
    and pc: "preferred_counter_ok s" and oi: "orphan_inv s"
    by (simp_all add: net_inv_def)
  from run obtain state where st: "fmlookup (mapNodeState s) (GetId node) = Some state"
    by (auto simp: UpdatePreferredDownload_def State_def split: option.splits)
  define state1 where "state1 = state\<lparr>fPreferredDownload :=
                         ((\<not> fInbound node \<or> fWhitelisted node) \<and> \<not> fOneShot node \<and> \<not> fClient node)\<rparr>"
  from run st have s': "s' = s\<lparr>mapNodeState := fmupd (GetId node) state1 (mapNodeState s),
       nPreferredDownload := nPreferredDownload s - of_bool (fPreferredDownload state)
                               + of_bool (fPreferredDownload state1)\<rparr>"
    by (simp add: UpdatePreferredDownload_def State_def Let_def state1_def)
  have ii': "inflight_inv s'"
    by (rule inflight_inv_fmupd_same_list[OF ii st, of state1]) (simp_all add: s' state1_def)
  have vc': "validated_counter_ok s'"
    using vc fcard_peers_where_fmupd[OF st, of "\<lambda>st. 0 < nBlocksInFlightValidHeaders st" state1]
    by (simp add: validated_counter_ok_def s' validated_peers_where state1_def)
  have pc': "preferred_counter_ok s'"
    using pc fcard_peers_where_fmupd[OF st, of fPreferredDownload state1]
    by (simp add: preferred_counter_ok_def s' preferred_peers_where)
  have oi': "orphan_inv s'" using oi by (simp add: orphan_inv_def s')
  show ?thesis using ii' vc' pc' oi' by (simp add: net_inv_def)
qed

lemma orphan_write_net_inv:
  assumes inv: "net_inv s" and oi': "orphan_inv s'"
    and frame: "s'\<lparr>mapOrphanTransactions := mapOrphanTransactions s,
                   mapOrphanTransactionsByPrev := mapOrphanTransactionsByPrev s\<rparr> = s"
  shows "net_inv s'"
proof -
  have f: "mapNodeState s' = mapNodeState s" "mapBlocksInFlight s' = mapBlocksInFlight s"
    "nPreferredDownload s' = nPreferredDownload s"
    "nPeersWithValidatedDownloads s' = nPeersWithValidatedDownloads s"
  proof -
    have "mapNodeState s' = mapNodeState (s'\<lparr>mapOrphanTransactions := mapOrphanTransactions s,
                   mapOrphanTransactionsByPrev := mapOrphanTransactionsByPrev s\<rparr>)" by simp
    then show "mapNodeState s' = mapNodeState s" unfolding frame .
    have "mapBlocksInFlight s' = mapBlocksInFlight (s'\<lparr>mapOrphanTransactions := mapOrphanTransactions s,
                   mapOrphanTransactionsByPrev := mapOrphanTransactionsByPrev s\<rparr>)" by simp
    then show "mapBlocksInFlight s' = mapBlocksInFlight s" unfolding frame .
    have "nPreferredDownload s' = nPreferredDownload (s'\<lparr>mapOrphanTransactions := mapOrphanTransactions s,
                   mapOrphanTransactionsByPrev := mapOrphanTransactionsByPrev s\<rparr>)" by simp
    then show "nPreferredDownload s' = nPreferredDownload s" unfolding frame .
    have "nPeersWithValidatedDownloads s' = nPeersWithValidatedDownloads (s'\<lparr>mapOrphanTransactions := mapOrphanTransactions s,
                   mapOrphanTransactionsByPrev := mapOrphanTransactionsByPrev s\<rparr>)" by simp
    then show "nPeersWithValidatedDownloads s' = nPeersWithValidatedDownloads s" unfolding frame .
  qed
  show ?thesis
    using inv oi'
    by (simp add: net_inv_def inflight_inv_def validated_counter_ok_def preferred_counter_ok_def f)
qed

lemma LimitOrphanTxSize_loop_orphan_inv:
  "orphan_inv s \<Longrightarrow>
   LimitOrphanTxSize_loop GetRandHash i nMaxOrphans nEvicted s = Inr (nEvicted', s') \<Longrightarrow>
   orphan_inv s'"
proof (induction GetRandHash i nMaxOrphans nEvicted s rule: LimitOrphanTxSize_loop.induct)
  case (1 GetRandHash i nMaxOrphans nEvicted s)
  show ?case
  proof (cases "unat nMaxOrphans < fcard (fmdom (mapOrphanTransactions s))")
    case False
    with "1.prems" show ?thesis
      by (subst (asm) LimitOrphanTxSize_loop.simps) simp
  next
    case True
    define it where "it = (if lower_bound (mapOrphanTransactions s) (GetRandHash i) = None
               then map_begin (mapOrphanTransactions s)
               else lower_bound (mapOrphanTransactions s) (GetRandHash i))"
    from "1.prems"(2) True obtain k where k: "it = Some k"
      and run: "LimitOrphanTxSize_loop GetRandHash (Suc i) nMaxOrphans (nEvicted + 1)
                  (EraseOrphanTx k s) = Inr (nEvicted', s')"
      by (subst (asm) LimitOrphanTxSize_loop.simps)
         (auto simp: Let_def it_def split: option.splits if_splits)
    show ?thesis
      using "1.IH"[OF True refl refl refl k[unfolded it_def]
          EraseOrphanTx_orphan_inv[OF "1.prems"(1)] run] .
  qed
qed

lemma LimitOrphanTxSize_net_inv:
  assumes inv: "net_inv s" and run: "LimitOrphanTxSize GetRandHash nMaxOrphans s = Inr (nEvicted, s')"
  shows "net_inv s'"
proof -
  from LimitOrphanTxSize_loop_correct[of GetRandHash 0 nMaxOrphans 0 s] run
  have frame: "s'\<lparr>mapOrphanTransactions := mapOrphanTransactions s,
          mapOrphanTransactionsByPrev := mapOrphanTransactionsByPrev s\<rparr> = s"
    by (auto simp: LimitOrphanTxSize_def)
  from inv have "orphan_inv s" by (simp add: net_inv_def)
  then have "orphan_inv s'"
    using LimitOrphanTxSize_loop_orphan_inv run by (simp add: LimitOrphanTxSize_def)
  then show ?thesis using orphan_write_net_inv[OF inv _ frame] by simp
qed

lemma reachable_net_inv: "reachable s \<Longrightarrow> net_inv s"
proof (induction rule: reachable.induct)
  case init
  show ?case by (rule net_inv_init)
next
  case (initialize s nodeid)
  then show ?case by (simp add: InitializeNode_net_inv)
next
  case (finalize s nodeid fUpdateConnectionTime s')
  from finalize.hyps(2) obtain state where "fmlookup (mapNodeState s) nodeid = Some state"
    by (auto simp: FinalizeNode_def State_def split: option.splits)
  from FinalizeNode_net_inv[OF finalize.IH this] finalize.hyps(2) show ?case by auto
next
  case (in_flight s now1 now2 nodeid h pindex s')
  then show ?case using MarkBlockAsInFlight_net_inv by blast
next
  case (received s now h r s')
  then show ?case using MarkBlockAsReceived_net_inv by blast
next
  case (preferred s node s')
  then show ?case using UpdatePreferredDownload_net_inv by blast
next
  case (add_orphan s txn peer)
  then show ?case
    using orphan_write_net_inv[OF _ AddOrphanTx_orphan_inv AddOrphanTx_frame]
    by (simp add: net_inv_def)
next
  case (erase_orphan s h)
  then show ?case
    using orphan_write_net_inv[OF _ EraseOrphanTx_orphan_inv EraseOrphanTx_frame]
    by (simp add: net_inv_def)
next
  case (limit_orphans s GetRandHash nMaxOrphans nEvicted s')
  then show ?case using LimitOrphanTxSize_net_inv by blast
next
  case (misbehaving s gArgs pnode howmuch reason)
  then show ?case using untracked_write_net_inv[OF Misbehaving_untracked] by blast
next
  case (already_have s chain cinv r s')
  then show ?case using untracked_write_net_inv[OF AlreadyHave_untracked] by blast
next
  case (other s s')
  then show ?case using untracked_write_net_inv by blast
qed

lemma MarkBlockAsReceived_completes:
  assumes "reachable s"
  shows "\<exists>r s'. MarkBlockAsReceived now h s = Inr (r, s')"
proof (cases "fmlookup (mapBlocksInFlight s) h")
  case None
  then show ?thesis by (auto simp: MarkBlockAsReceived_def)
next
  case (Some a)
  obtain nodeid it where a: "a = (nodeid, it)" by (cases a)
  from reachable_net_inv[OF assms] have "inflight_inv s" by (simp add: net_inv_def)
  with Some a obtain st qb where "fmlookup (mapNodeState s) nodeid = Some st"
    "map_of (vBlocksInFlight st) it = Some qb"
    unfolding inflight_inv_def by blast
  with Some a show ?thesis by (auto simp: MarkBlockAsReceived_def State_def Let_def)
qed

lemma MarkBlockAsInFlight_completes:
  assumes "reachable s" and "nodeid |\<in>| fmdom (mapNodeState s)"
  shows "\<exists>s'. MarkBlockAsInFlight now1 now2 nodeid h pindex s = Inr s'"
proof -
  from MarkBlockAsReceived_completes[OF assms(1)] obtain r s1 where
    rc: "MarkBlockAsReceived now1 h s = Inr (r, s1)" by blast
  from MarkBlockAsReceived_index[OF rc] assms(2)
  have "nodeid |\<in>| fmdom (mapNodeState s1)" by simp
  then obtain st1 where "fmlookup (mapNodeState s1) nodeid = Some st1"
    by (auto simp: fmlookup_dom_iff)
  moreover from assms(2) obtain st where "fmlookup (mapNodeState s) nodeid = Some st"
    by (auto simp: fmlookup_dom_iff)
  ultimately show ?thesis
    using rc by (simp add: MarkBlockAsInFlight_def State_def Let_def)
qed

text \<open>
  C2. In every reachable state, \<^verbatim>\<open>FinalizeNode\<close> of a registered peer completes: no assertion
  fails (and no null pointer or stale iterator is followed). The peer is removed from the
  registry, and when the registry is empty afterwards, the in-flight index is empty and
  \<^verbatim>\<open>nPreferredDownload\<close> and \<^verbatim>\<open>nPeersWithValidatedDownloads\<close> are both zero.
\<close>
theorem FinalizeNode_last_peer:
  assumes "reachable s" and "nodeid |\<in>| fmdom (mapNodeState s)"
  shows "\<exists>fUpdateConnectionTime s'.
           FinalizeNode nodeid s = Inr (fUpdateConnectionTime, s')
         \<and> mapNodeState s' = fmdrop nodeid (mapNodeState s)
         \<and> (mapNodeState s' = fmempty \<longrightarrow>
               mapBlocksInFlight s' = fmempty \<and> nPreferredDownload s' = 0
               \<and> nPeersWithValidatedDownloads s' = 0)"
proof -
  from assms(2) obtain state where st: "fmlookup (mapNodeState s) nodeid = Some state"
    by (auto simp: fmlookup_dom_iff)
  from FinalizeNode_net_inv[OF reachable_net_inv[OF assms(1)] st] show ?thesis by blast
qed

lemma ex_in_flight_reachable: "reachable ex_in_flight"
proof -
  have r0: "reachable (InitializeNode 7 net_state_init)"
    by (rule reachable.initialize[OF reachable.init])
  have "untracked_write (InitializeNode 7 net_state_init) ex_state"
    by (simp add: untracked_write_def InitializeNode_def ex_state_def net_state_init_def
        ex_peer_def CNodeState_new_def)
  then have r1: "reachable ex_state"
    by (rule reachable.other[OF r0])
  show ?thesis
    by (rule reachable.in_flight[OF r1 ex_mark_in_flight])
qed

lemma ex_finalize: "FinalizeNode 7 ex_in_flight = Inr (False, ex_finalized)"
  by (simp add: FinalizeNode_def State_def ex_in_flight_def ex_state_def net_state_init_def
      ex_peer_def CNodeState_new_def ex_queued_def ex_finalized_def fmdrop_fmupd_same
      EraseOrphansFor_def map_keys_def sorted_list_of_fset.rep_eq)

text \<open>
  Peer 7 is the only peer and has block 42 in flight with a validated header; finalizing it
  leaves the initial maps and counters.
\<close>
theorem FinalizeNode_last_peer_witness:
  "reachable ex_in_flight \<and> 7 |\<in>| fmdom (mapNodeState ex_in_flight) \<and>
   fmlookup (mapBlocksInFlight ex_in_flight) 42 = Some (7, 0) \<and>
   nPeersWithValidatedDownloads ex_in_flight = 1 \<and>
   FinalizeNode 7 ex_in_flight = Inr (False, ex_finalized) \<and>
   mapNodeState ex_finalized = fmempty \<and> mapBlocksInFlight ex_finalized = fmempty \<and>
   nPreferredDownload ex_finalized = 0 \<and> nPeersWithValidatedDownloads ex_finalized = 0"
proof -
  have d: "7 |\<in>| fmdom (mapNodeState ex_in_flight)"
    by (simp add: ex_in_flight_def)
  have e: "mapNodeState ex_finalized = fmempty"
    by (simp add: ex_finalized_def net_state_init_def)
  from FinalizeNode_last_peer[OF ex_in_flight_reachable d] ex_finalize e
  have "mapBlocksInFlight ex_finalized = fmempty \<and> nPreferredDownload ex_finalized = 0
        \<and> nPeersWithValidatedDownloads ex_finalized = 0"
    by auto
  then show ?thesis
    using ex_in_flight_reachable d ex_finalize e by (simp add: ex_in_flight_def)
qed

subsection \<open>A second VERSION message\<close>

text \<open>
  C8, amended. For a registered peer whose recorded protocol version is not zero, a further
  \<^verbatim>\<open>version\<close> message that the test hook does not drop is answered with exactly one
  \<^verbatim>\<open>reject\<close> carrying the command, the duplicate code and the reason; the peer's misbehaviour
  score grows by exactly 1; the call returns \<^verbatim>\<open>false\<close>. No field of the message is read:
  the result does not depend on the payload, the connection changes in its send queue only,
  and the globals change in that peer's score only, except that the ban flag is set when
  this point crosses the threshold, the configured \<^verbatim>\<open>-banscore\<close> as \<^verbatim>\<open>Misbehaving\<close> narrows
  it to an \<^verbatim>\<open>int\<close>.
\<close>
theorem duplicate_VERSION:
  assumes "\<not> (arg_dropmessagestest gArgs \<noteq> None \<and> dropRand = 0)"
    and "nVersion pfrom \<noteq> 0"
    and "State s (GetId pfrom) = Some st"
  shows "ProcessMessage other gArgs consts dropRand pfrom NetMsgType_VERSION vRecv nTimeReceived s
         = (False,
            pfrom\<lparr>vSendMsg := vSendMsg pfrom @
              [Make NetMsgType_REJECT
                 [Str NetMsgType_VERSION, Byte REJECT_DUPLICATE, Str ''Duplicate version message'']]\<rparr>,
            s\<lparr>mapNodeState := fmupd (GetId pfrom)
                (st\<lparr>nMisbehavior := nMisbehavior st + 1,
                    fShouldBan := (fShouldBan st \<or>
                       (nMisbehavior st + 1 \<ge> sint (ucast (GetArg (arg_banscore gArgs) DEFAULT_BANSCORE_THRESHOLD) :: 32 word)
                        \<and> nMisbehavior st < sint (ucast (GetArg (arg_banscore gArgs) DEFAULT_BANSCORE_THRESHOLD) :: 32 word)))\<rparr>)
                (mapNodeState s)\<rparr>)"
proof -
  have m: "Misbehaving gArgs (GetId pfrom) 1 ''multiple-version'' s =
      s\<lparr>mapNodeState := fmupd (GetId pfrom)
                (st\<lparr>nMisbehavior := nMisbehavior st + 1,
                    fShouldBan := (fShouldBan st \<or>
                       (nMisbehavior st + 1 \<ge> sint (ucast (GetArg (arg_banscore gArgs) DEFAULT_BANSCORE_THRESHOLD) :: 32 word)
                        \<and> nMisbehavior st < sint (ucast (GetArg (arg_banscore gArgs) DEFAULT_BANSCORE_THRESHOLD) :: 32 word)))\<rparr>)
                (mapNodeState s)\<rparr>"
    using assms(3) by (auto simp: Misbehaving_def Let_def)
  have "ProcessMessage other gArgs consts dropRand pfrom NetMsgType_VERSION vRecv nTimeReceived s
      = (False, PushMessage pfrom (Make NetMsgType_REJECT
                 [Str NetMsgType_VERSION, Byte REJECT_DUPLICATE, Str ''Duplicate version message'']),
         Misbehaving gArgs (GetId pfrom) 1 ''multiple-version'' s)"
    using assms(1,2)
    by (auto simp: ProcessMessage_def NetMsgType_FILTERLOAD_def
      NetMsgType_FILTERADD_def NetMsgType_FILTERCLEAR_def NetMsgType_VERSION_def)
  then show ?thesis
    by (simp add: m PushMessage_def)
qed

text \<open>
  C8, as stated, fails in its last part (no other peer state changes): at a peer with score
  99 and the default threshold 100 the second \<^verbatim>\<open>version\<close> sets the ban flag.
\<close>
theorem duplicate_VERSION_sets_ban_counterexample:
  "nVersion ex_node = 70015 \<and> State ex_state 7 = Some ex_peer \<and> \<not> fShouldBan ex_peer \<and>
   State (snd (snd (ProcessMessage other_ignored ex_args ex_consts 1 ex_node
             NetMsgType_VERSION [] 0 ex_state))) 7
     = Some (ex_peer\<lparr>nMisbehavior := 100, fShouldBan := True\<rparr>)"
  by (simp add: ProcessMessage_def NetMsgType_FILTERLOAD_def
      NetMsgType_FILTERADD_def NetMsgType_FILTERCLEAR_def NetMsgType_VERSION_def
      ex_node_def ex_args_def ex_state_def ex_peer_def CNodeState_new_def State_def
      Misbehaving_def GetArg_def DEFAULT_BANSCORE_THRESHOLD_def)

text \<open>With a threshold of 200 the same message changes the score only.\<close>
theorem duplicate_VERSION_witness:
  "arg_dropmessagestest ex_args = None \<and> nVersion ex_node \<noteq> 0 \<and>
   State ex_state (GetId ex_node) = Some ex_peer \<and>
   ProcessMessage other_ignored (ex_args\<lparr>arg_banscore := Some 200\<rparr>) ex_consts 1 ex_node NetMsgType_VERSION [] 0 ex_state
     = (False,
        ex_node\<lparr>vSendMsg := [\<lparr>command = ''reject'',
                    data = [Str ''version'', Byte 0x12, Str ''Duplicate version message'']\<rparr>]\<rparr>,
        ex_state\<lparr>mapNodeState := fmupd 7 (ex_peer\<lparr>nMisbehavior := 100\<rparr>) fmempty\<rparr>)"
proof -
  have a: "\<not> (arg_dropmessagestest (ex_args\<lparr>arg_banscore := Some 200\<rparr>) \<noteq> None \<and> (1::64 word) = 0)"
    by (simp add: ex_args_def)
  have b: "nVersion ex_node \<noteq> 0"
    by (simp add: ex_node_def)
  have c: "State ex_state (GetId ex_node) = Some ex_peer"
    by (simp add: State_def ex_state_def ex_node_def)
  show ?thesis
    using duplicate_VERSION[OF a b c, of other_ignored ex_consts "[]" 0] b c
    by (simp add: ex_args_def ex_node_def ex_peer_def GetArg_def Make_def NetMsgType_REJECT_def
        NetMsgType_VERSION_def REJECT_DUPLICATE_def ex_state_def CNodeState_new_def)
qed

subsection \<open>PONG\<close>

lemma ProcessMessage_pong:
  assumes "\<not> (arg_dropmessagestest gArgs \<noteq> None \<and> dropRand = 0)" and "nVersion pfrom \<noteq> 0"
  shows "ProcessMessage other gArgs consts dropRand pfrom NetMsgType_PONG vRecv nTimeReceived s
           = (True, ProcessMessage_PONG pfrom vRecv nTimeReceived, s)"
  using assms
  by (auto simp: ProcessMessage_def NetMsgType_PONG_def NetMsgType_FILTERLOAD_def
      NetMsgType_FILTERADD_def NetMsgType_FILTERCLEAR_def NetMsgType_VERSION_def)

text \<open>
  C9, as stated, fails: a ping with nonce 5 is outstanding and a \<^verbatim>\<open>pong\<close> with nonce zero
  arrives. The nonce does not equal the outstanding one, and yet the outstanding nonce is
  cleared: the \<^verbatim>\<open>pong\<close> is not ignored.
\<close>
theorem PONG_zero_nonce_counterexample:
  "read_uint64 [0,0,0,0,0,0,0,0] = 0 \<and> nPingNonceSent ex_node = 5 \<and>
   nPingNonceSent (fst (snd (ProcessMessage other_ignored ex_args ex_consts 1 ex_node
       NetMsgType_PONG [0,0,0,0,0,0,0,0] 2000 ex_state))) = 0"
  by (simp add: ProcessMessage_pong ex_args_def ex_node_def ProcessMessage_PONG_def read_uint64_def)

text \<open>
  C9, amended. A \<^verbatim>\<open>pong\<close> that reaches its handler (the message is not dropped by the test
  hook and the peer has sent its version) changes the connection only, and there:
  \<^item> a round-trip time is recorded only when the payload has at least eight bytes, a ping is
    outstanding and the received nonce equals the outstanding one; it is recorded when in
    addition the time since the ping is positive, and the outstanding nonce is cleared;
  \<^item> the outstanding ping is also cancelled, with the round-trip times left as they are,
    by a payload of fewer than eight bytes, by a nonce of zero, and by a matching nonce
    with a time that is not positive;
  \<^item> an unsolicited \<^verbatim>\<open>pong\<close> and one with a nonce that is neither zero nor the outstanding
    one leave the connection as it is.
\<close>
theorem PONG_ping_state:
  assumes "\<not> (arg_dropmessagestest gArgs \<noteq> None \<and> dropRand = 0)" and "nVersion pfrom \<noteq> 0"
    and "nonce = read_uint64 vRecv" and "rtt = nTimeReceived - nPingUsecStart pfrom"
  shows "\<exists>pfrom'.
      ProcessMessage other gArgs consts dropRand pfrom NetMsgType_PONG vRecv nTimeReceived s
        = (True, pfrom', s)
    \<and> ((nPingUsecTime pfrom' \<noteq> nPingUsecTime pfrom \<or> nMinPingUsecTime pfrom' \<noteq> nMinPingUsecTime pfrom)
         \<longrightarrow> length vRecv \<ge> 8 \<and> nPingNonceSent pfrom \<noteq> 0 \<and> nonce = nPingNonceSent pfrom)
    \<and> (length vRecv \<ge> 8 \<and> nPingNonceSent pfrom \<noteq> 0 \<and> nonce = nPingNonceSent pfrom \<and> 0 < rtt
         \<longrightarrow> pfrom' = pfrom\<lparr>nPingUsecTime := rtt,
                             nMinPingUsecTime := min (nMinPingUsecTime pfrom) rtt,
                             nPingNonceSent := 0\<rparr>)
    \<and> (length vRecv < 8
          \<or> (nPingNonceSent pfrom \<noteq> 0 \<and> (nonce = 0 \<or> (nonce = nPingNonceSent pfrom \<and> rtt \<le> 0)))
         \<longrightarrow> pfrom' = pfrom\<lparr>nPingNonceSent := 0\<rparr>)
    \<and> (nPingNonceSent pfrom = 0 \<longrightarrow> pfrom' = pfrom)
    \<and> (length vRecv \<ge> 8 \<and> nonce \<noteq> 0 \<and> nonce \<noteq> nPingNonceSent pfrom \<longrightarrow> pfrom' = pfrom)"
  using assms(3-) unfolding ProcessMessage_pong[OF assms(1,2)]
  by (auto simp: ProcessMessage_PONG_def Let_def)

text \<open>
  The matching case at a concrete connection: the ping with nonce 5 was sent at time 1000,
  the \<^verbatim>\<open>pong\<close> with nonce 5 arrives at time 1300.
\<close>
theorem PONG_ping_state_witness:
  "arg_dropmessagestest ex_args = None \<and> nVersion ex_node \<noteq> 0 \<and>
   length [5,0,0,0,0,0,0,0::8 word] \<ge> 8 \<and> read_uint64 [5,0,0,0,0,0,0,0] = nPingNonceSent ex_node \<and>
   ProcessMessage other_ignored ex_args ex_consts 1 ex_node NetMsgType_PONG [5,0,0,0,0,0,0,0] 1300 ex_state
     = (True, ex_node\<lparr>nPingUsecTime := 300, nMinPingUsecTime := 300, nPingNonceSent := 0\<rparr>, ex_state)"
proof -
  have a: "\<not> (arg_dropmessagestest ex_args \<noteq> None \<and> (1::64 word) = 0)"
    by (simp add: ex_args_def)
  have b: "nVersion ex_node \<noteq> 0"
    by (simp add: ex_node_def)
  have c: "read_uint64 [5,0,0,0,0,0,0,0] = nPingNonceSent ex_node"
    by (simp add: read_uint64_def ex_node_def)
  have d: "nPingNonceSent ex_node \<noteq> 0" "nPingUsecStart ex_node = 1000" "nMinPingUsecTime ex_node = 500"
    by (simp_all add: ex_node_def)
  have e: "arg_dropmessagestest ex_args = None"
    by (simp add: ex_args_def)
  show ?thesis
    using PONG_ping_state[OF a b refl refl, of other_ignored ex_consts "[5,0,0,0,0,0,0,0]" 1300 ex_state]
      a b c d e
    by auto
qed

subsection \<open>Outbound tick before the handshake and after a disconnect request\<close>

text \<open>
  C10. For a peer whose handshake is not complete (\<^verbatim>\<open>fSuccessfullyConnected\<close> is false) or
  that is marked for disconnect, \<^verbatim>\<open>SendMessages\<close> returns at once (with \<^verbatim>\<open>true\<close>): nothing is
  queued on the connection, and neither the connection nor the globals change, whatever the
  rest of the tick would do.
\<close>
theorem SendMessages_guard:
  assumes "\<not> fSuccessfullyConnected pto \<or> fDisconnect pto"
  shows "SendMessages rest consts now1 now2 GetRandBytes pto s = Some (True, pto, s)"
  using assms by (simp add: SendMessages_def)

theorem SendMessages_guard_witness:
  "fDisconnect (ex_node\<lparr>fDisconnect := True\<rparr>) \<and>
   SendMessages rest_sends ex_consts 0 0 (\<lambda>i. 1) (ex_node\<lparr>fDisconnect := True\<rparr>) ex_state
     = Some (True, ex_node\<lparr>fDisconnect := True\<rparr>, ex_state)"
  using SendMessages_guard[of "ex_node\<lparr>fDisconnect := True\<rparr>" rest_sends ex_consts 0 0 "\<lambda>i. 1" ex_state]
  by simp

end
